theory Spec2Isabelle
  imports Main "HOL-Library.Word" "HOL-Library.Monad_Syntax" "HOL-Library.Signed_Division"
begin

unbundle bit_operations_syntax

section \<open>The explicit-free-list allocator of malloclab (mm.c)\<close>

text \<open>
  The allocator works on raw memory, so the embedding keeps a raw memory: a function from
  byte addresses to 32-bit words, read and written at 4-byte granularity (\<open>GET\<close> and
  \<open>PUT\<close> of the source access a \<open>uint32_t\<close>). Addresses are integers, \<open>NULL\<close> is 0.
  A \<open>char *\<close> has 8 bytes (the LP64 layout the source is written for: the previous-link
  sits \<open>DSIZE\<close> bytes after the next-link and the smallest split remainder is
  \<open>3 * DSIZE = 24\<close> bytes, that is header, two 8-byte links, footer); it is stored
  little-endian in two consecutive words.

  Every function of the source that touches memory returns an \<open>option\<close>: \<open>None\<close>
  means that the call does not return normally, because it accesses an address outside
  the region \<open>[mem_start_brk, mem_brk)\<close> or a misaligned one (undefined behaviour in C,
  a crash in practice), or because a list walk never ends. \<open>uint32_t\<close> values are
  \<open>32 word\<close>, \<open>size_t\<close> values are \<open>64 word\<close>, so that all arithmetic wraps as in C.
\<close>

type_synonym uint32_t = "32 word"
type_synonym size_t = "64 word"

record mstate =
  mem :: "int \<Rightarrow> uint32_t"
  mem_start_brk :: int
  mem_brk :: int
  mem_max_addr :: int
  heap_listp :: int
  free_listp :: int
  ff_size :: uint32_t
  ff_count :: int

text \<open>
  \<open>ff_size\<close> and \<open>ff_count\<close> are the two \<open>static int\<close> variables \<open>size\<close> and
  \<open>count\<close> of \<open>find_fit\<close>. \<open>ff_size\<close> holds the bit pattern of the \<open>int\<close>;
  \<open>ff_count\<close> is only ever incremented while it is at most 40, so it cannot overflow
  and is kept as an integer.
\<close>

datatype 'a outcome = Return 'a | Exit string

subsection \<open>The region driver (memlib)\<close>

text \<open>
  Modelled from the spec: the region driver \<open>memlib.c\<close> is not part of the sources.
  Section 6 of the specification gives it as \<open>grow(n) -> base address of new region or
  failure\<close>, \<open>currentLowBound()\<close> and \<open>currentHighBound()\<close>; the region only grows.
  Failure is the value \<open>(void *)-1\<close> that \<open>extend_heap\<close> tests for.
\<close>

definition mem_sbrk :: "mstate \<Rightarrow> int \<Rightarrow> mstate \<times> int" where
  "mem_sbrk s incr =
     (if incr < 0 \<or> mem_brk s + incr > mem_max_addr s then (s, -1)
      else (s\<lparr>mem_brk := mem_brk s + incr\<rparr>, mem_brk s))"

definition mem_heap_lo :: "mstate \<Rightarrow> int" where
  "mem_heap_lo s = mem_start_brk s"

definition mem_heap_hi :: "mstate \<Rightarrow> int" where
  "mem_heap_hi s = mem_brk s - 1"

text \<open>The state of the program before the first call: an empty region at \<open>lo\<close> that
  may grow up to \<open>hi\<close>, memory contents \<open>m0\<close>, all globals zero.\<close>

definition fresh :: "int \<Rightarrow> int \<Rightarrow> (int \<Rightarrow> uint32_t) \<Rightarrow> mstate" where
  "fresh lo hi m0 =
     \<lparr>mem = m0, mem_start_brk = lo, mem_brk = lo, mem_max_addr = hi,
      heap_listp = 0, free_listp = 0, ff_size = 0, ff_count = 0\<rparr>"

subsection \<open>Constants and macros\<close>

definition WSIZE :: "'a::numeral" where "WSIZE = 4"
definition DSIZE :: "'a::numeral" where "DSIZE = 8"
definition CHUNKSIZE :: "'a::numeral" where "CHUNKSIZE = 65536"
definition OVERHEAD :: "'a::numeral" where "OVERHEAD = 8"

definition MAXC :: "'a::linorder \<Rightarrow> 'a \<Rightarrow> 'a" where
  "MAXC x y = (if x > y then x else y)"

definition PACK :: "'a::len word \<Rightarrow> 'a word \<Rightarrow> 'a word" where
  "PACK size' alloc = size' OR alloc"

definition valid :: "mstate \<Rightarrow> int \<Rightarrow> bool" where
  "valid s p \<longleftrightarrow> mem_start_brk s \<le> p \<and> p + 4 \<le> mem_brk s \<and> p mod 4 = 0"

definition GET :: "mstate \<Rightarrow> int \<Rightarrow> uint32_t option" where
  "GET s p = (if valid s p then Some (mem s p) else None)"

definition PUT :: "mstate \<Rightarrow> int \<Rightarrow> uint32_t \<Rightarrow> mstate option" where
  "PUT s p val = (if valid s p then Some (s\<lparr>mem := (mem s)(p := val)\<rparr>) else None)"

definition GET_SIZE :: "mstate \<Rightarrow> int \<Rightarrow> uint32_t option" where
  "GET_SIZE s p = do { w \<leftarrow> GET s p; Some (w AND NOT 7) }"

definition GET_ALLOC :: "mstate \<Rightarrow> int \<Rightarrow> uint32_t option" where
  "GET_ALLOC s p = do { w \<leftarrow> GET s p; Some (w AND 1) }"

definition HDRP :: "int \<Rightarrow> int" where
  "HDRP bp = bp - WSIZE"

definition FTRP :: "mstate \<Rightarrow> int \<Rightarrow> int option" where
  "FTRP s bp = do { sz \<leftarrow> GET_SIZE s (HDRP bp); Some (bp + uint sz - DSIZE) }"

definition NEXT_BLKP :: "mstate \<Rightarrow> int \<Rightarrow> int option" where
  "NEXT_BLKP s bp = do { sz \<leftarrow> GET_SIZE s (bp - WSIZE); Some (bp + uint sz) }"

definition PREV_BLKP :: "mstate \<Rightarrow> int \<Rightarrow> int option" where
  "PREV_BLKP s bp = do { sz \<leftarrow> GET_SIZE s (bp - DSIZE); Some (bp - uint sz) }"

text \<open>A pointer in memory: the low word at \<open>p\<close>, the high word at \<open>p + 4\<close>.\<close>

definition GET_PTR :: "mstate \<Rightarrow> int \<Rightarrow> int option" where
  "GET_PTR s p = do { l \<leftarrow> GET s p; h \<leftarrow> GET s (p + 4); Some (uint l + 2 ^ 32 * uint h) }"

definition PUT_PTR :: "mstate \<Rightarrow> int \<Rightarrow> int \<Rightarrow> mstate option" where
  "PUT_PTR s p q = do { s1 \<leftarrow> PUT s p (word_of_int q); PUT s1 (p + 4) (word_of_int (q div 2 ^ 32)) }"

definition GET_NEXT :: "mstate \<Rightarrow> int \<Rightarrow> int option" where
  "GET_NEXT s bp = GET_PTR s bp"

definition GET_PREV :: "mstate \<Rightarrow> int \<Rightarrow> int option" where
  "GET_PREV s bp = GET_PTR s (bp + DSIZE)"

definition SET_NEXT :: "mstate \<Rightarrow> int \<Rightarrow> int \<Rightarrow> mstate option" where
  "SET_NEXT s bp qp = PUT_PTR s bp qp"

definition SET_PREV :: "mstate \<Rightarrow> int \<Rightarrow> int \<Rightarrow> mstate option" where
  "SET_PREV s bp qp = PUT_PTR s (bp + DSIZE) qp"

subsection \<open>The free list\<close>

definition edit_free_list :: "mstate \<Rightarrow> int \<Rightarrow> int \<Rightarrow> mstate option" where
  "edit_free_list s bp i =
     (if i \<noteq> 0 then do {
        s1 \<leftarrow> (if free_listp s \<noteq> 0 then do {
                 t \<leftarrow> SET_PREV s (free_listp s) bp;
                 SET_NEXT t bp (free_listp s) }
               else SET_NEXT s bp 0);
        s2 \<leftarrow> SET_PREV s1 bp 0;
        Some (s2\<lparr>free_listp := bp\<rparr>) }
      else do {
        pv \<leftarrow> GET_PREV s bp;
        s1 \<leftarrow> (if pv \<noteq> 0 then do { nx \<leftarrow> GET_NEXT s bp; SET_NEXT s pv nx }
               else do { nx \<leftarrow> GET_NEXT s bp; Some (s\<lparr>free_listp := nx\<rparr>) });
        nx \<leftarrow> GET_NEXT s1 bp;
        if nx \<noteq> 0 then do { pv' \<leftarrow> GET_PREV s1 bp; SET_PREV s1 nx pv' }
        else Some s1 })"

subsection \<open>Coalescing, growing, placing, searching\<close>

definition coalesce :: "mstate \<Rightarrow> int \<Rightarrow> (mstate \<times> int) option" where
  "coalesce s bp = do {
     pb \<leftarrow> PREV_BLKP s bp;
     fpb \<leftarrow> FTRP s pb;
     pa \<leftarrow> GET_ALLOC s fpb;
     let prev_alloc = (pa \<noteq> 0 \<or> pb = bp);
     nb \<leftarrow> NEXT_BLKP s bp;
     na \<leftarrow> GET_ALLOC s (HDRP nb);
     let next_alloc = (na \<noteq> 0);
     size' \<leftarrow> GET_SIZE s (HDRP bp);
     (s', bp') \<leftarrow>
       (if prev_alloc \<and> next_alloc then Some (s, bp)
        else if prev_alloc \<and> \<not> next_alloc then do {
          nsz \<leftarrow> GET_SIZE s (HDRP nb);
          let size' = size' + nsz;
          s1 \<leftarrow> edit_free_list s nb 0;
          s2 \<leftarrow> PUT s1 (HDRP bp) (PACK size' 0);
          f \<leftarrow> FTRP s2 bp;
          s3 \<leftarrow> PUT s2 f (PACK size' 0);
          Some (s3, bp) }
        else if \<not> prev_alloc \<and> next_alloc then do {
          psz \<leftarrow> GET_SIZE s (HDRP pb);
          let size' = size' + psz;
          s1 \<leftarrow> PUT s (HDRP pb) (PACK size' 0);
          f \<leftarrow> FTRP s1 pb;
          s2 \<leftarrow> PUT s1 f (PACK size' 0);
          s3 \<leftarrow> edit_free_list s2 pb 0;
          Some (s3, pb) }
        else do {
          psz \<leftarrow> GET_SIZE s (HDRP pb);
          fnb \<leftarrow> FTRP s nb;
          nsz \<leftarrow> GET_SIZE s fnb;
          let size' = size' + (psz + nsz);
          s1 \<leftarrow> edit_free_list s nb 0;
          pb1 \<leftarrow> PREV_BLKP s1 bp;
          s2 \<leftarrow> PUT s1 (HDRP pb1) (PACK size' 0);
          pb2 \<leftarrow> PREV_BLKP s2 bp;
          f \<leftarrow> FTRP s2 pb2;
          s3 \<leftarrow> PUT s2 f (PACK size' 0);
          pb3 \<leftarrow> PREV_BLKP s3 bp;
          s4 \<leftarrow> edit_free_list s3 pb3 0;
          Some (s4, pb3) });
     s'' \<leftarrow> edit_free_list s' bp' 1;
     Some (s'', bp') }"

text \<open>The number of bytes by which \<open>extend_heap\<close> grows the region: the value it
  assigns to \<open>size\<close> (an even number of words, at least 24 bytes).\<close>

definition grow_size :: "size_t \<Rightarrow> uint32_t" where
  "grow_size words =
     (let size0 = (ucast (if words mod 2 \<noteq> 0 then (words + 1) * WSIZE else words * WSIZE) :: uint32_t)
      in if size0 < 24 then 24 else size0)"

definition extend_heap :: "mstate \<Rightarrow> size_t \<Rightarrow> (mstate \<times> int) option" where
  "extend_heap s words =
     (let size' = grow_size words;
          (s1, bp) = mem_sbrk s (sint size')
      in if bp = -1 then Some (s1, 0)
         else do {
           s2 \<leftarrow> PUT s1 (HDRP bp) (PACK size' 0);
           f \<leftarrow> FTRP s2 bp;
           s3 \<leftarrow> PUT s2 f (PACK size' 0);
           nb \<leftarrow> NEXT_BLKP s3 bp;
           s4 \<leftarrow> PUT s3 (HDRP nb) (PACK 0 1);
           coalesce s4 bp })"

definition place :: "mstate \<Rightarrow> int \<Rightarrow> size_t \<Rightarrow> mstate option" where
  "place s bp asize = do {
     csize \<leftarrow> GET_SIZE s (HDRP bp);
     s1 \<leftarrow> edit_free_list s bp 0;
     if ucast csize - asize \<ge> DSIZE * 3 then do {
       s2 \<leftarrow> PUT s1 (HDRP bp) (ucast (PACK asize 1));
       f \<leftarrow> FTRP s2 bp;
       s3 \<leftarrow> PUT s2 f (ucast (PACK asize 1));
       nb \<leftarrow> NEXT_BLKP s3 bp;
       s4 \<leftarrow> PUT s3 (HDRP nb) (ucast (PACK (ucast csize - asize) 0));
       g \<leftarrow> FTRP s4 nb;
       s5 \<leftarrow> PUT s4 g (ucast (PACK (ucast csize - asize) 0));
       edit_free_list s5 nb 1 }
     else do {
       s2 \<leftarrow> PUT s1 (HDRP bp) (PACK csize 1);
       f \<leftarrow> FTRP s2 bp;
       PUT s2 f (PACK csize 1) } }"

text \<open>The \<open>while (fp)\<close> loop of \<open>find_fit\<close>. It follows next-links until it finds a
  block that is large enough or reaches \<open>NULL\<close>; on a cyclic list it never ends.\<close>

partial_function (option) find_fit_loop :: "mstate \<Rightarrow> size_t \<Rightarrow> int \<Rightarrow> (mstate \<times> int) option" where
  "find_fit_loop s asize fp =
     (if fp \<noteq> 0 then do {
        sz \<leftarrow> GET_SIZE s (HDRP fp);
        if asize \<le> ucast sz then Some (s\<lparr>ff_size := ucast asize\<rparr>, fp)
        else do { nx \<leftarrow> GET_NEXT s fp; find_fit_loop s asize nx } }
      else Some (s, 0))"

declare find_fit_loop.simps [code]

definition find_fit :: "mstate \<Rightarrow> size_t \<Rightarrow> (mstate \<times> int) option" where
  "find_fit s asize =
     (let fp = free_listp s in
      if ff_size s = ucast asize then
        (if ff_count s > 40 then
           (let extendsize = sint (ucast (MAXC asize (4 * WSIZE)) :: uint32_t)
            in extend_heap s (word_of_int (extendsize sdiv 4)))
         else find_fit_loop (s\<lparr>ff_count := ff_count s + 1\<rparr>) asize fp)
      else find_fit_loop (s\<lparr>ff_count := 0\<rparr>) asize fp)"

subsection \<open>The public operations\<close>

definition mm_init :: "mstate \<Rightarrow> (mstate \<times> int) option" where
  "mm_init s =
     (let (s0, p) = mem_sbrk s (4 * WSIZE);
          s1 = s0\<lparr>heap_listp := p\<rparr>
      in if p = 0 then Some (s1, -1)
         else do {
           s2 \<leftarrow> PUT s1 p 0;
           s3 \<leftarrow> PUT s2 (p + WSIZE) (PACK OVERHEAD 1);
           s4 \<leftarrow> PUT s3 (p + DSIZE) (PACK OVERHEAD 1);
           s5 \<leftarrow> PUT s4 (p + WSIZE + DSIZE) (PACK 0 1);
           (s6, bp) \<leftarrow> extend_heap (s5\<lparr>free_listp := 0\<rparr>) (CHUNKSIZE div WSIZE);
           if bp = 0 then Some (s6, -1) else Some (s6, 0) })"

definition lazy_init :: "mstate \<Rightarrow> mstate option" where
  "lazy_init s = (if heap_listp s = 0 then map_option fst (mm_init s) else Some s)"

text \<open>The adjusted block size: the value that \<open>mm_malloc\<close> assigns to \<open>asize\<close>
  (block size with overhead, rounded up to a multiple of \<open>DSIZE\<close>).\<close>

definition adjust :: "size_t \<Rightarrow> uint32_t" where
  "adjust size' = (if size' \<le> DSIZE then DSIZE + OVERHEAD
                   else ucast (DSIZE * ((size' + OVERHEAD + (DSIZE - 1)) div DSIZE)))"

definition mm_malloc :: "mstate \<Rightarrow> size_t \<Rightarrow> (mstate \<times> int) option" where
  "mm_malloc s size' = do {
     s0 \<leftarrow> lazy_init s;
     if size' \<le> 0 then Some (s0, 0)
     else do {
       let asize = adjust size';
       (s1, bp) \<leftarrow> find_fit s0 (ucast asize);
       if bp \<noteq> 0 then do { s2 \<leftarrow> place s1 bp (ucast asize); Some (s2, bp) }
       else do {
         let extendsize = MAXC asize CHUNKSIZE;
         (s2, bp) \<leftarrow> extend_heap s1 (ucast (extendsize div WSIZE));
         if bp = 0 then Some (s2, 0)
         else do { s3 \<leftarrow> place s2 bp (ucast asize); Some (s3, bp) } } } }"

definition mm_free :: "mstate \<Rightarrow> int \<Rightarrow> mstate option" where
  "mm_free s bp = do {
     size' \<leftarrow> GET_SIZE s (HDRP bp);
     if bp = 0 then Some s
     else do {
       s0 \<leftarrow> lazy_init s;
       s1 \<leftarrow> PUT s0 (HDRP bp) (PACK size' 0);
       f \<leftarrow> FTRP s1 bp;
       s2 \<leftarrow> PUT s1 f (PACK size' 0);
       (s3, r) \<leftarrow> coalesce s2 bp;
       Some s3 } }"

text \<open>
  \<open>memcpy\<close> of the C library, on the word-granular memory: it copies \<open>n\<close> bytes from
  \<open>src\<close> to \<open>dst\<close>. Both ranges must lie in the region and must not overlap (undefined
  behaviour otherwise); both addresses are word-aligned wherever the allocator calls it.
  A last partial word keeps its upper bytes (the layout is little-endian).
\<close>

definition memcpy :: "mstate \<Rightarrow> int \<Rightarrow> int \<Rightarrow> size_t \<Rightarrow> mstate option" where
  "memcpy s dst src n =
     (let len = uint n in
      if len = 0 then Some s
      else if mem_start_brk s \<le> src \<and> src + len \<le> mem_brk s \<and> src mod 4 = 0 \<and>
              mem_start_brk s \<le> dst \<and> dst + len \<le> mem_brk s \<and> dst mod 4 = 0 \<and>
              (src + len \<le> dst \<or> dst + len \<le> src)
      then Some (s\<lparr>mem := (\<lambda>a.
             if a mod 4 = 0 \<and> dst \<le> a \<and> a < dst + len then
               (let w = mem s (src + (a - dst)); k = nat (dst + len - a) in
                if k \<ge> 4 then w else (w AND mask (8 * k)) OR (mem s a AND NOT (mask (8 * k))))
             else mem s a)\<rparr>)
      else None)"

definition mm_realloc :: "mstate \<Rightarrow> int \<Rightarrow> size_t \<Rightarrow> (mstate \<times> int) outcome option" where
  "mm_realloc s ptr size' = do {
     (s1, newp) \<leftarrow> mm_malloc s size';
     if newp = 0 then Some (Exit ''ERROR: mm_malloc failed in mm_realloc'')
     else do {
       hsz \<leftarrow> GET_SIZE s1 (HDRP ptr);
       let copySize = (ucast hsz :: size_t);
       let copySize = (if size' < copySize then size' else copySize);
       s2 \<leftarrow> memcpy s1 newp ptr copySize;
       s3 \<leftarrow> mm_free s2 ptr;
       Some (Return (s3, newp)) } }"

subsection \<open>The consistency checker\<close>

text \<open>\<open>printblock\<close> only prints, but it reads the header and the footer of its block
  first, and these reads must be possible.\<close>

definition printblock :: "mstate \<Rightarrow> int \<Rightarrow> unit option" where
  "printblock s bp = do {
     hsize \<leftarrow> GET_SIZE s (HDRP bp);
     halloc \<leftarrow> GET_ALLOC s (HDRP bp);
     f \<leftarrow> FTRP s bp;
     fsize \<leftarrow> GET_SIZE s f;
     falloc \<leftarrow> GET_ALLOC s f;
     Some () }"

definition checkblock :: "mstate \<Rightarrow> int \<Rightarrow> unit outcome option" where
  "checkblock s bp =
     (if \<not> (bp \<le> mem_heap_hi s \<and> bp \<ge> mem_heap_lo s) then Some (Exit ''Not in heap'')
      else if \<not> (((word_of_int bp :: size_t) + 7) AND NOT 7 = word_of_int bp)
        then Some (Exit ''Not in alignment'')
      else do {
        h \<leftarrow> GET s (HDRP bp);
        f \<leftarrow> FTRP s bp;
        w \<leftarrow> GET s f;
        if h \<noteq> w then Some (Exit ''header not equal to foot'') else Some (Return ()) })"

text \<open>The walk over all blocks, from \<open>bp\<close> to the first block of size 0. It returns
  the block it stopped at and the number of free blocks it met.\<close>

partial_function (option) heap_walk :: "mstate \<Rightarrow> int \<Rightarrow> int \<Rightarrow> (int \<times> int) outcome option" where
  "heap_walk s bp heap_counter = do {
     sz \<leftarrow> GET_SIZE s (HDRP bp);
     if sz > 0 then do {
       a \<leftarrow> GET_ALLOC s (HDRP bp);
       let heap_counter = (if a = 0 then heap_counter + 1 else heap_counter);
       _ \<leftarrow> printblock s bp;
       c \<leftarrow> checkblock s bp;
       case c of Exit m \<Rightarrow> Some (Exit m)
       | Return _ \<Rightarrow> do { nb \<leftarrow> NEXT_BLKP s bp; heap_walk s nb heap_counter } }
     else Some (Return (bp, heap_counter)) }"

declare heap_walk.simps [code]

text \<open>The walk over the free list; it returns the number of nodes.\<close>

partial_function (option) list_walk :: "mstate \<Rightarrow> int \<Rightarrow> int \<Rightarrow> int outcome option" where
  "list_walk s cp list_counter =
     (if cp \<noteq> 0 then do {
        c \<leftarrow> checkblock s cp;
        case c of Exit m \<Rightarrow> Some (Exit m)
        | Return _ \<Rightarrow> do {
            nx \<leftarrow> GET_NEXT s cp;
            _ \<leftarrow> printblock s nx;
            list_walk s nx (list_counter + 1) } }
      else Some (Return list_counter))"

declare list_walk.simps [code]

definition mm_checkheap :: "mstate \<Rightarrow> int \<Rightarrow> unit outcome option" where
  "mm_checkheap s verbose =
     (let go = free_listp s + DSIZE in
      if heap_listp s \<noteq> mem_heap_lo s then Some (Exit ''not correctly started'')
      else do {
        hs \<leftarrow> GET_SIZE s (HDRP go);
        ha \<leftarrow> GET_ALLOC s (HDRP go);
        if hs \<noteq> DSIZE \<or> ha = 0 then Some (Exit ''bad prologue HDR'')
        else do {
          f \<leftarrow> FTRP s go;
          fs \<leftarrow> GET_SIZE s f;
          fa \<leftarrow> GET_ALLOC s f;
          if fs \<noteq> DSIZE \<or> fa = 0 then Some (Exit ''Bad prologue FTR'')
          else do {
            c \<leftarrow> checkblock s go;
            case c of Exit m \<Rightarrow> Some (Exit m)
            | Return _ \<Rightarrow> do {
                nb \<leftarrow> NEXT_BLKP s go;
                w \<leftarrow> heap_walk s nb 0;
                case w of Exit m \<Rightarrow> Some (Exit m)
                | Return (bp, heap_counter) \<Rightarrow> do {
                    l \<leftarrow> list_walk s (free_listp s) 0;
                    case l of Exit m \<Rightarrow> Some (Exit m)
                    | Return list_counter \<Rightarrow> do {
                        es \<leftarrow> GET_SIZE s (HDRP bp);
                        ea \<leftarrow> GET_ALLOC s (HDRP bp);
                        if es \<noteq> 0 \<or> ea = 0 then Some (Exit ''epilogue'')
                        else if heap_counter \<noteq> list_counter then Some (Exit ''counter !='')
                        else Some (Return ()) } } } } } })"

subsection \<open>Reference points for the claims\<close>

text \<open>The payload of a block is what is left of its size after the two boundary tags.\<close>

definition payload_size :: "mstate \<Rightarrow> int \<Rightarrow> size_t option" where
  "payload_size s bp = do { sz \<leftarrow> GET_SIZE s (HDRP bp); Some (ucast sz - OVERHEAD) }"

text \<open>Resize as section 4.4 of the specification words it: a new block from allocate,
  \<open>min(newSize, oldPayloadSize)\<close> bytes copied, the old block released, the new
  reference returned; the process ends when allocate fails.\<close>

definition resize_spec :: "mstate \<Rightarrow> int \<Rightarrow> size_t \<Rightarrow> (mstate \<times> int) outcome option" where
  "resize_spec s ptr n = do {
     (s1, newp) \<leftarrow> mm_malloc s n;
     if newp = 0 then Some (Exit ''ERROR: mm_malloc failed in mm_realloc'')
     else do {
       p \<leftarrow> payload_size s1 ptr;
       s2 \<leftarrow> memcpy s1 newp ptr (min n p);
       s3 \<leftarrow> mm_free s2 ptr;
       Some (Return (s3, newp)) } }"

subsection \<open>Consistency of the free list and of a block's neighbourhood\<close>

text \<open>
  The predicates below describe the heaps on which the allocator is meant to work; the
  theorems on \<open>coalesce\<close>, \<open>extend_heap\<close> and on reuse after release take them as
  hypotheses. \<open>blk_size\<close> and \<open>is_free\<close> read the header of a block directly.
\<close>

definition blk_size :: "mstate \<Rightarrow> int \<Rightarrow> int" where
  "blk_size s bp = uint (mem s (HDRP bp) AND NOT 7)"

definition is_free :: "mstate \<Rightarrow> int \<Rightarrow> bool" where
  "is_free s bp \<longleftrightarrow> mem s (HDRP bp) AND 1 = 0"

text \<open>\<open>dll s p q xs\<close>: following next-links from \<open>p\<close> visits exactly the nodes
  \<open>xs\<close> and ends at \<open>NULL\<close>, and the previous-link of every node is the node before
  it (\<open>q\<close> for the first).\<close>

fun dll :: "mstate \<Rightarrow> int \<Rightarrow> int \<Rightarrow> int list \<Rightarrow> bool" where
  "dll s p q [] \<longleftrightarrow> p = 0"
| "dll s p q (x # xs) \<longleftrightarrow>
     p = x \<and> x \<noteq> 0 \<and> GET_PREV s x = Some q \<and>
     (case GET_NEXT s x of None \<Rightarrow> False | Some n \<Rightarrow> dll s n x xs)"

text \<open>A well-formed free block: aligned, inside the region, at least 24 bytes (header,
  two links, footer), marked free, footer equal to header.\<close>

definition free_block :: "mstate \<Rightarrow> int \<Rightarrow> bool" where
  "free_block s x \<longleftrightarrow>
     x mod 8 = 0 \<and> mem_start_brk s \<le> HDRP x \<and> x + blk_size s x \<le> mem_brk s \<and>
     24 \<le> blk_size s x \<and> is_free s x \<and>
     mem s (x + blk_size s x - DSIZE) = mem s (HDRP x)"

definition apart :: "mstate \<Rightarrow> int \<Rightarrow> int \<Rightarrow> bool" where
  "apart s x y \<longleftrightarrow> x + blk_size s x \<le> y \<or> y + blk_size s y \<le> x"

definition region_ok :: "mstate \<Rightarrow> bool" where
  "region_ok s \<longleftrightarrow>
     0 < mem_start_brk s \<and> mem_brk s \<le> 2 ^ 64 \<and> mem_brk s - mem_start_brk s < 2 ^ 32"

text \<open>The free list of \<open>s\<close> is the doubly linked list \<open>xs\<close> of well-formed free
  blocks that do not overlap.\<close>

definition free_list_ok :: "mstate \<Rightarrow> int list \<Rightarrow> bool" where
  "free_list_ok s xs \<longleftrightarrow>
     dll s (free_listp s) 0 xs \<and> distinct xs \<and> (\<forall>x\<in>set xs. free_block s x) \<and>
     (\<forall>x\<in>set xs. \<forall>y\<in>set xs. x \<noteq> y \<longrightarrow> apart s x y)"

text \<open>The neighbours of a block, by boundary-tag arithmetic, as \<open>coalesce\<close> sees
  them: the previous block counts as free when the footer before \<open>bp\<close> has a non-zero
  size and a clear allocated bit.\<close>

definition prev_blk :: "mstate \<Rightarrow> int \<Rightarrow> int" where
  "prev_blk s bp = bp - uint (mem s (bp - DSIZE) AND NOT 7)"

definition next_blk :: "mstate \<Rightarrow> int \<Rightarrow> int" where
  "next_blk s bp = bp + blk_size s bp"

definition prev_free :: "mstate \<Rightarrow> int \<Rightarrow> bool" where
  "prev_free s bp \<longleftrightarrow> prev_blk s bp \<noteq> bp \<and> mem s (bp - DSIZE) AND 1 = 0"

definition next_free :: "mstate \<Rightarrow> int \<Rightarrow> bool" where
  "next_free s bp \<longleftrightarrow> is_free s (next_blk s bp)"

text \<open>\<open>blk_pre s xs bp\<close>: \<open>bp\<close> is a block of at least 16 bytes inside the region
  that overlaps no block of the free list \<open>xs\<close>; the block before it carries the same
  word in header and footer; a free neighbour is a node of the free list.\<close>

definition blk_pre :: "mstate \<Rightarrow> int list \<Rightarrow> int \<Rightarrow> bool" where
  "blk_pre s xs bp \<longleftrightarrow>
     region_ok s \<and> free_list_ok s xs \<and> bp mod 8 = 0 \<and> 16 \<le> blk_size s bp \<and>
     mem_start_brk s \<le> bp - DSIZE \<and> next_blk s bp \<le> mem_brk s \<and>
     (\<forall>x\<in>set xs. apart s bp x) \<and>
     (prev_blk s bp = bp \<or>
        mem_start_brk s \<le> HDRP (prev_blk s bp) \<and> mem s (HDRP (prev_blk s bp)) = mem s (bp - DSIZE)) \<and>
     (prev_free s bp \<longrightarrow> prev_blk s bp \<in> set xs) \<and>
     (next_free s bp \<longrightarrow> next_blk s bp \<in> set xs)"

text \<open>What \<open>coalesce\<close> expects: such a block, already marked free in header and
  footer.\<close>

definition coalesce_pre :: "mstate \<Rightarrow> int list \<Rightarrow> int \<Rightarrow> bool" where
  "coalesce_pre s xs bp \<longleftrightarrow>
     blk_pre s xs bp \<and> is_free s bp \<and> mem s (next_blk s bp - DSIZE) = mem s (HDRP bp)"

text \<open>\<open>heap_end_ok s xs\<close>: what \<open>extend_heap\<close> expects at the end of the region.
  The free list is consistent, the end of the region is double-word aligned, the block
  that ends there carries the same word in header and footer and is a node of the free
  list if it is free, and the region cannot grow beyond 4 GB.\<close>

definition heap_end_ok :: "mstate \<Rightarrow> int list \<Rightarrow> bool" where
  "heap_end_ok s xs \<longleftrightarrow>
     region_ok s \<and> free_list_ok s xs \<and> mem_brk s mod 8 = 0 \<and>
     mem_start_brk s \<le> mem_brk s - DSIZE \<and>
     mem_max_addr s \<le> 2 ^ 64 \<and> mem_max_addr s - mem_start_brk s < 2 ^ 32 \<and>
     (prev_blk s (mem_brk s) = mem_brk s \<or>
        mem_start_brk s \<le> HDRP (prev_blk s (mem_brk s)) \<and>
        mem s (HDRP (prev_blk s (mem_brk s))) = mem s (mem_brk s - DSIZE)) \<and>
     (prev_free s (mem_brk s) \<longrightarrow> prev_blk s (mem_brk s) \<in> set xs)"

text \<open>The block that results from merging \<open>bp\<close> with its free neighbours, and the
  nodes of the old free list that are not absorbed.\<close>

definition merged_start :: "mstate \<Rightarrow> int \<Rightarrow> int" where
  "merged_start s bp = (if prev_free s bp then prev_blk s bp else bp)"

definition merged_size :: "mstate \<Rightarrow> int \<Rightarrow> int" where
  "merged_size s bp =
     (if prev_free s bp then blk_size s (prev_blk s bp) else 0) + blk_size s bp +
     (if next_free s bp then blk_size s (next_blk s bp) else 0)"

definition survivors :: "mstate \<Rightarrow> int \<Rightarrow> int list \<Rightarrow> int list" where
  "survivors s bp xs =
     filter (\<lambda>x. (prev_free s bp \<longrightarrow> x \<noteq> prev_blk s bp) \<and>
                 (next_free s bp \<longrightarrow> x \<noteq> next_blk s bp)) xs"

subsection \<open>Auxiliary notions for the proofs\<close>

text \<open>Pointers and list segments on the bare memory, the cells that hold the links of
  a node, and sizes as words with the low three bits clear.\<close>

definition ptr_at :: "(int \<Rightarrow> uint32_t) \<Rightarrow> int \<Rightarrow> int" where
  "ptr_at m p = uint (m p) + 2 ^ 32 * uint (m (p + 4))"

definition put_ptr :: "(int \<Rightarrow> uint32_t) \<Rightarrow> int \<Rightarrow> int \<Rightarrow> (int \<Rightarrow> uint32_t)" where
  "put_ptr m p q = m(p := word_of_int q, p + 4 := word_of_int (q div 2 ^ 32))"

definition links :: "int \<Rightarrow> int set" where
  "links x = {x, x + 4, x + 8, x + 12}"

definition lvalid :: "mstate \<Rightarrow> int \<Rightarrow> bool" where
  "lvalid s x \<longleftrightarrow> mem_start_brk s \<le> x \<and> x + 16 \<le> mem_brk s \<and> x mod 4 = 0"

fun lseg :: "(int \<Rightarrow> uint32_t) \<Rightarrow> int \<Rightarrow> int \<Rightarrow> int list \<Rightarrow> int \<Rightarrow> bool" where
  "lseg m p q [] e \<longleftrightarrow> p = e"
| "lseg m p q (x # xs) e \<longleftrightarrow> p = x \<and> x \<noteq> 0 \<and> ptr_at m (x + 8) = q \<and> lseg m (ptr_at m x) x xs e"

definition spaced :: "int list \<Rightarrow> bool" where
  "spaced xs \<longleftrightarrow> (\<forall>x\<in>set xs. \<forall>y\<in>set xs. x \<noteq> y \<longrightarrow> x + 16 \<le> y \<or> y + 16 \<le> x)"

definition al8 :: "32 word \<Rightarrow> bool" where
  "al8 w \<longleftrightarrow> uint w mod 8 = 0"

definition nodes_ok :: "mstate \<Rightarrow> int list \<Rightarrow> bool" where
  "nodes_ok s xs \<longleftrightarrow> distinct xs \<and> (\<forall>x\<in>set xs. free_block s x) \<and>
     (\<forall>x\<in>set xs. \<forall>y\<in>set xs. x \<noteq> y \<longrightarrow> apart s x y)"

text \<open>The outcome of \<open>coalesce\<close> on the memory level: the call returns \<open>r\<close> with
  memory \<open>m'\<close>; the list from \<open>r\<close> is \<open>r # rest\<close>; \<open>w\<close> is the header of \<open>r\<close>
  and, for a block of at least 24 bytes, its footer; nothing else changes outside the
  block \<open>r\<close> and the link cells.\<close>

definition coal_res ::
  "mstate \<Rightarrow> int list \<Rightarrow> int \<Rightarrow> int \<Rightarrow> uint32_t \<Rightarrow> int list \<Rightarrow> (int \<Rightarrow> uint32_t) \<Rightarrow> bool" where
  "coal_res s xs bp r w rest m' \<longleftrightarrow>
     coalesce s bp = Some (s\<lparr>mem := m', free_listp := r\<rparr>, r) \<and>
     lseg m' r 0 (r # rest) 0 \<and>
     (\<forall>a. (a < r - 4 \<or> r + uint (w AND NOT 7) - 4 \<le> a) \<and> a \<notin> links r \<and> (\<forall>y\<in>set xs. a \<notin> links y)
          \<longrightarrow> m' a = mem s a) \<and>
     m' (r - 4) = w \<and> (24 \<le> uint (w AND NOT 7) \<longrightarrow> m' (r + uint (w AND NOT 7) - 8) = w)"

text \<open>A concrete machine: a region at address 4096 that may grow to 20 MB, memory all
  zero, and the heap right after \<open>mm_init\<close>.\<close>

definition boot :: mstate where
  "boot = fresh 4096 20975616 (\<lambda>_. 0)"

definition after_init :: mstate where
  "after_init = (case mm_init boot of Some (s, r) \<Rightarrow> s | None \<Rightarrow> boot)"

text \<open>Three blocks \<open>a\<close>, \<open>b\<close>, \<open>c\<close> of 100, 200 and 50 bytes (at 4112, 4224
  and 4432); \<open>a\<close> and \<open>c\<close> are released, and \<open>b\<close> is marked free in header and
  footer, as \<open>mm_free\<close> does before it calls \<open>coalesce\<close>.\<close>

definition coalesce_example :: mstate where
  "coalesce_example =
     (case do { (s1, a) \<leftarrow> mm_malloc after_init 100;
                (s2, b) \<leftarrow> mm_malloc s1 200;
                (s3, c) \<leftarrow> mm_malloc s2 50;
                s4 \<leftarrow> mm_free s3 a;
                s5 \<leftarrow> mm_free s4 c;
                s6 \<leftarrow> PUT s5 (HDRP b) (PACK 208 0);
                PUT s6 (b + 208 - DSIZE) (PACK 208 0) }
      of Some s \<Rightarrow> s | None \<Rightarrow> boot)"

text \<open>Scenario A before the release: blocks of 100 and 200 bytes at 4112 and 4224; the
  rest of the heap is the free block at 4432.\<close>

definition scenario_a :: mstate where
  "scenario_a =
     (case do { (s1, x) \<leftarrow> mm_malloc after_init 100;
                (s2, y) \<leftarrow> mm_malloc s1 200;
                Some s2 }
      of Some s \<Rightarrow> s | None \<Rightarrow> boot)"

text \<open>\<open>k\<close> successive requests of the same size.\<close>

fun malloc_times :: "nat \<Rightarrow> mstate \<Rightarrow> size_t \<Rightarrow> mstate option" where
  "malloc_times 0 s n = Some s"
| "malloc_times (Suc k) s n = do { (s1, p) \<leftarrow> mm_malloc s n; malloc_times k s1 n }"

section \<open>Basic facts\<close>

lemma lazy_init_done: "heap_listp s \<noteq> 0 \<Longrightarrow> lazy_init s = Some s"
  by (simp add: lazy_init_def)

lemma after_init_eval:
  "mem_start_brk after_init = 4096 \<and> mem_brk after_init = 69648 \<and>
   heap_listp after_init = 4096 \<and> free_listp after_init = 4112 \<and>
   ff_size after_init = 0 \<and> ff_count after_init = 0"
  by code_simp

section \<open>Allocate(0)\<close>

text \<open>
  C6, as stated, fails: on the machine that has never been initialised, \<open>mm_malloc 0\<close>
  returns null but runs the lazy \<open>mm_init\<close> first, which grows the region and seeds the
  free list.
\<close>

theorem malloc_zero_uninitialised_grows:
  "(case mm_malloc boot 0 of
      Some (s', r) \<Rightarrow> r = 0 \<and> mem_brk boot = 4096 \<and> mem_brk s' = 69648 \<and>
                      free_listp boot = 0 \<and> free_listp s' = 4112
    | None \<Rightarrow> False)"
  by code_simp

text \<open>
  C6, amended: in every state in which the heap is initialised (\<open>heap_listp\<close> is not
  null), \<open>mm_malloc 0\<close> returns null and leaves the whole state unchanged.
\<close>

theorem malloc_zero_initialised: "heap_listp s \<noteq> 0 \<Longrightarrow> mm_malloc s 0 = Some (s, 0)"
  by (simp add: mm_malloc_def lazy_init_done)

theorem malloc_zero_initialised_witness:
  "heap_listp after_init \<noteq> 0 \<and> mm_malloc after_init 0 = Some (after_init, 0)"
proof -
  have h: "heap_listp after_init \<noteq> 0"
    using after_init_eval by simp
  from h malloc_zero_initialised [OF h] show ?thesis by simp
qed

section \<open>Null references\<close>

text \<open>
  C7: \<open>mm_free\<close> reads the size field of the header at \<open>bp - 4\<close> before it tests
  \<open>bp\<close> for null. For the null reference this is a read at address \<open>-4\<close>, outside
  the region: the call does not return, so it is not a no-op without memory access.
\<close>

theorem free_null_reads_header:
  "HDRP 0 = -4 \<and> GET after_init (HDRP 0) = None \<and> mm_free after_init 0 = None"
  by code_simp

text \<open>
  C8: \<open>mm_realloc\<close> has no null test. With a null reference it allocates, then reads
  the header of the old block at \<open>-4\<close>; where \<open>mm_malloc 16\<close> returns the block at
  4112, \<open>mm_realloc\<close> of the null reference with size 16 does not return at all.
\<close>

theorem realloc_null_reads_header:
  "map_option snd (mm_malloc after_init 16) = Some 4112 \<and> mm_realloc after_init 0 16 = None"
  by code_simp

section \<open>The consistency checker\<close>

text \<open>
  C9: the checker locates the prologue from \<open>free_listp + DSIZE\<close>, not from
  \<open>heap_listp + DSIZE\<close>, so the word it takes for the prologue header is the upper half
  of the first free block's next-link. On the heap right after \<open>mm_init\<close> it stops with
  a violation.
\<close>

theorem checkheap_rejects_initial_heap:
  "mm_checkheap after_init 0 = Some (Exit ''bad prologue HDR'')"
  by code_simp

text \<open>In particular the checker does not pass on that heap.\<close>

theorem checkheap_rejects_initial_heap_witness:
  "mm_checkheap after_init 0 \<noteq> Some (Return ())"
  using checkheap_rejects_initial_heap by simp

section \<open>The minimum block size\<close>

text \<open>
  C5: a request of at most 8 bytes gets the adjusted size 16, a block with 8 bytes of
  payload, while the two links need 16. Two such blocks \<open>a\<close> and \<open>b\<close> are allocated
  next to each other; before \<open>a\<close> is released, the header of \<open>a\<close>, its footer (at
  \<open>a + 8\<close>) and the header of \<open>b\<close> all hold 17 (size 16, allocated). Releasing \<open>a\<close>
  stores its previous-link at \<open>a + 8\<close>: the footer of \<open>a\<close> and the header of \<open>b\<close>
  are overwritten with 0.
\<close>

theorem small_block_links_overwrite_tags:
  "adjust 8 = 16 \<and>
   do { (s1, a) \<leftarrow> mm_malloc after_init 8;
        (s2, b) \<leftarrow> mm_malloc s1 8;
        s3 \<leftarrow> mm_free s2 a;
        Some (a, b, [mem s2 (HDRP a), mem s2 (a + 8), mem s2 (HDRP b)],
                    [mem s3 (HDRP a), mem s3 (a + 8), mem s3 (HDRP b)]) }
   = Some (4112, 4128, [17, 17, 17], [16, 0, 0])"
  by code_simp

section \<open>Coalescing after the release of a small block\<close>

text \<open>
  C2: the postcondition fails once a block of 16 bytes has been released. After
  \<open>mm_init\<close>, \<open>a = mm_malloc 8\<close> is the 16-byte block at 4112 and \<open>x = mm_malloc 100\<close>
  the block at 4128, with header 113; the rest of the heap is the free block at 4240, of
  65408 bytes. Releasing \<open>a\<close> stores the previous-link of \<open>a\<close> at \<open>a + 8\<close>, over the
  footer of \<open>a\<close> and the header of \<open>x\<close>, which becomes 0; the free list is then
  \<open>[4112, 4240]\<close>. Now \<open>x\<close> is released. As \<open>mm_free\<close> does, the size is read from the
  header of \<open>x\<close>, header and footer are marked free, and \<open>x\<close> is passed to \<open>coalesce\<close>.
  The size is 0, so \<open>coalesce\<close> takes \<open>x\<close> itself for the block after \<open>x\<close>, finds it free
  and removes it from the free list, in which it never was: the head of the list becomes
  the next-link read from the payload of \<open>x\<close>, which is null. The call returns \<open>x\<close> as
  the head of the free list, with size 0 and no successor. The blocks at 4112 and 4240
  are still marked free, but they are no longer in the list, and no free block covers
  the 112 bytes of \<open>x\<close> and the free block behind them.
\<close>

theorem coalesce_after_small_release:
  "do { (s1, a) \<leftarrow> mm_malloc after_init 8;
        (s2, x) \<leftarrow> mm_malloc s1 100;
        s3 \<leftarrow> mm_free s2 a;
        size' \<leftarrow> GET_SIZE s3 (HDRP x);
        s4 \<leftarrow> PUT s3 (HDRP x) (PACK size' 0);
        f \<leftarrow> FTRP s4 x;
        s5 \<leftarrow> PUT s4 f (PACK size' 0);
        (s6, r) \<leftarrow> coalesce s5 x;
        n \<leftarrow> GET_NEXT s6 r;
        Some ((a, x), (mem s2 (HDRP x), mem s3 (HDRP x)),
              (free_listp s3, dll s3 (free_listp s3) 0 [4112, 4240]),
              (r, free_listp s6, blk_size s6 r, n),
              (is_free s6 4112, is_free s6 4240, blk_size s6 4240)) }
   = Some ((4112, 4128), (113, 0), (4112, True), (4128, 4128, 0, 0), (True, True, 65408))"
  by code_simp

text \<open>In particular the call returns, and the block it returns has size 0 and no
  successor in the list.\<close>

theorem coalesce_after_small_release_witness:
  "(case do { (s1, a) \<leftarrow> mm_malloc after_init 8;
              (s2, x) \<leftarrow> mm_malloc s1 100;
              s3 \<leftarrow> mm_free s2 a;
              size' \<leftarrow> GET_SIZE s3 (HDRP x);
              s4 \<leftarrow> PUT s3 (HDRP x) (PACK size' 0);
              f \<leftarrow> FTRP s4 x;
              s5 \<leftarrow> PUT s4 f (PACK size' 0);
              (s6, r) \<leftarrow> coalesce s5 x;
              n \<leftarrow> GET_NEXT s6 r;
              Some ((a, x), (mem s2 (HDRP x), mem s3 (HDRP x)),
                    (free_listp s3, dll s3 (free_listp s3) 0 [4112, 4240]),
                    (r, free_listp s6, blk_size s6 r, n),
                    (is_free s6 4112, is_free s6 4240, blk_size s6 4240)) }
    of Some (ax, hs, l3, (r, h, sz, n), fr) \<Rightarrow> r = 4128 \<and> h = r \<and> sz = 0 \<and> n = 0
     | None \<Rightarrow> False)"
  using coalesce_after_small_release by simp

section \<open>Growing the region after the release of a small block\<close>

text \<open>
  C10: the postcondition fails on a heap that the public operations produce. After
  \<open>mm_init\<close>, \<open>a = mm_malloc 8\<close> is the 16-byte block at 4112 and \<open>x = mm_malloc 65512\<close>
  the block at 4128 that takes the rest of the heap (header 65521, free list empty). The
  caller stores the number 135176 in its block \<open>x\<close>, at offset 8. Then \<open>a\<close> is released:
  the previous-link of \<open>a\<close> overwrites the header of \<open>x\<close> with 0. A request of 100 bytes
  (adjusted size 112) now finds no fit, and \<open>mm_malloc\<close> calls \<open>extend_heap 16384\<close>. The
  memory system grants the request, the region grows from 69648 to 135184, and the new
  block gets the header 65536. But \<open>coalesce\<close> looks for the footer of the block before
  the new one through the zeroed header of \<open>x\<close>, takes \<open>x\<close> for free and unlinks it,
  following the caller's data as if they were links: 0 is stored over the footer of the
  new block (at 135176) and over the epilogue header (at 135180). The call returns
  4128, the block that the caller still uses. Header and footer of the new block differ,
  and the word at the new end of the region is not an allocated header.
\<close>

theorem extend_heap_after_small_release:
  "do { (s1, a) \<leftarrow> mm_malloc after_init 8;
        (s2, x) \<leftarrow> mm_malloc s1 65512;
        s3 \<leftarrow> PUT_PTR s2 (x + 8) 135176;
        s4 \<leftarrow> mm_free s3 a;
        (s5, fp) \<leftarrow> find_fit s4 (ucast (adjust 100));
        (s6, r) \<leftarrow> extend_heap s5 (ucast (MAXC (adjust 100) CHUNKSIZE div WSIZE));
        Some ((a, x), (free_listp s2, mem s2 (HDRP x), mem s4 (HDRP x)), (fp, mem_brk s5),
              (r, mem_brk s6), (mem s6 (HDRP 69648), mem s6 (135184 - DSIZE), mem s6 (135184 - WSIZE))) }
   = Some ((4112, 4128), (0, 65521, 0), (0, 69648), (4128, 135184), (65536, 0, 0))"
  by code_simp

section \<open>The bypass of the free-list search\<close>

text \<open>
  C4: \<open>find_fit\<close> records the size of the last request that found a fit, and counts
  every later request of that size, fit or no fit. After 42 requests of 16 bytes, all
  served from the free list (the region has not grown), the counter stands at 41; the
  43rd request skips the search and grows the region by 24 bytes although the head of
  the free list is a free block of 64528 bytes.
\<close>

theorem bypass_counts_hits:
  "do { s \<leftarrow> malloc_times 42 after_init 16;
        h \<leftarrow> GET s (HDRP (free_listp s));
        (s', p) \<leftarrow> mm_malloc s 16;
        Some (mem_brk s - mem_brk after_init, ff_size s, ff_count s, h, mem_brk s' - mem_brk s) }
   = Some (0, 24, 41, 64528, 24)"
  by code_simp

text \<open>
  C1: the round trip fails. After \<open>mm_init\<close> and 41 requests of 16 bytes, a block
  \<open>x\<close> of 16 bytes is allocated (at 5096) and released at once. The release merges it
  with the free rest of the heap into a free block of 64552 bytes at 5096, the head of
  the free list. The next request of 16 bytes is the 43rd of that size: all the requests
  before it found a fit, yet \<open>find_fit\<close> has counted them, skips the search and calls
  \<open>extend_heap\<close>. The region grows from 69648 to 69672 although the released block could
  hold the request.
\<close>

theorem reuse_bypassed_grows:
  "do { s \<leftarrow> malloc_times 41 after_init 16;
        (s1, x) \<leftarrow> mm_malloc s 16;
        s2 \<leftarrow> mm_free s1 x;
        (s3, z) \<leftarrow> mm_malloc s2 16;
        Some (x, mem_brk s1, is_free s2 x, blk_size s2 x, free_listp s2, mem_brk s2, z, mem_brk s3) }
   = Some (5096, 69648, True, 64552, 5096, 69648, 5096, 69672)"
  by code_simp

text \<open>The round trip also fails behind a released block of 16 bytes, with no bypass:
  \<open>a = mm_malloc 8\<close>, \<open>x = mm_malloc 100\<close>, then \<open>a\<close> and \<open>x\<close> are released. The
  release of \<open>a\<close> has overwritten the header of \<open>x\<close>, the release of \<open>x\<close> leaves a free
  list that holds only a block of size 0, and the request of 50 bytes that follows grows
  the region from 69648 to 135184.\<close>

lemma reuse_after_small_release_grows:
  "do { (s1, a) \<leftarrow> mm_malloc after_init 8;
        (s2, x) \<leftarrow> mm_malloc s1 100;
        s3 \<leftarrow> mm_free s2 a;
        s4 \<leftarrow> mm_free s3 x;
        (s5, z) \<leftarrow> mm_malloc s4 50;
        Some (a, x, mem_brk s4, ff_size s4, ff_count s4, z, mem_brk s5) }
   = Some (4112, 4128, 69648, 112, 0, 4240, 135184)"
  by code_simp

section \<open>Resize\<close>


text \<open>
  On a block whose header is intact, the copy length that \<open>mm_realloc\<close> reads from the
  header is the block size, 8 bytes more than the payload. The block at 4112 has 16
  bytes of payload; resizing it to 32 bytes gives the block at 4136, and the word at
  offset 16 of the new block is 25, the footer of the old block. Copying
  \<open>min(newSize, oldPayloadSize)\<close> bytes leaves that word 0.
\<close>

lemma realloc_copies_block_size:
  "do { (s1, x) \<leftarrow> mm_malloc after_init 16;
        r \<leftarrow> mm_realloc s1 x 32;
        r' \<leftarrow> resize_spec s1 x 32;
        Some (x, case r of Return (s, p) \<Rightarrow> (p, mem s (p + 16)) | Exit m \<Rightarrow> (0, 0),
                 case r' of Return (s, p) \<Rightarrow> (p, mem s (p + 16)) | Exit m \<Rightarrow> (0, 0)) }
   = Some (4112, (4136, 25), (4136, 0))"
  by code_simp

section \<open>The free list in memory\<close>

lemma valid_upd [simp]:
  "valid (s\<lparr>mem := m\<rparr>) p = valid s p"
  "valid (s\<lparr>free_listp := h\<rparr>) p = valid s p"
  by (simp_all add: valid_def)

lemma lvalid_upd [simp]:
  "lvalid (s\<lparr>mem := m\<rparr>) p = lvalid s p"
  "lvalid (s\<lparr>free_listp := h\<rparr>) p = lvalid s p"
  by (simp_all add: lvalid_def)

lemma lvalid_valid:
  "lvalid s x \<Longrightarrow> valid s x \<and> valid s (x + 4) \<and> valid s (x + 8) \<and> valid s (x + 12)"
  unfolding lvalid_def valid_def by presburger

lemma GET_PTR_eq:
  "GET_PTR s p = (if valid s p \<and> valid s (p + 4) then Some (ptr_at (mem s) p) else None)"
  by (simp add: GET_PTR_def GET_def ptr_at_def)

lemma PUT_PTR_eq:
  "PUT_PTR s p q = (if valid s p \<and> valid s (p + 4) then Some (s\<lparr>mem := put_ptr (mem s) p q\<rparr>) else None)"
  by (simp add: PUT_PTR_def PUT_def put_ptr_def)

lemma ptr_split:
  assumes "0 \<le> q" "q < 2 ^ 64"
  shows "uint (word_of_int q :: 32 word) + 2 ^ 32 * uint (word_of_int (q div 2 ^ 32) :: 32 word) = q"
proof -
  from assms have "q div 2 ^ 32 < 2 ^ 32"
    by (simp add: div_less_iff_less_mult del: div_less_iff_less_mult)
  with assms have "(q div 2 ^ 32) mod 2 ^ 32 = q div 2 ^ 32" by simp
  then show ?thesis by (simp add: uint_word_of_int)
qed

lemma ptr_at_put_same: "0 \<le> q \<Longrightarrow> q < 2 ^ 64 \<Longrightarrow> ptr_at (put_ptr m p q) p = q"
  using ptr_split [of q] by (simp add: ptr_at_def put_ptr_def)

lemma put_ptr_other: "a \<noteq> p \<Longrightarrow> a \<noteq> p + 4 \<Longrightarrow> put_ptr m p q a = m a"
  by (simp add: put_ptr_def)

lemma ptr_at_cong: "m' p = m p \<Longrightarrow> m' (p + 4) = m (p + 4) \<Longrightarrow> ptr_at m' p = ptr_at m p"
  by (simp add: ptr_at_def)

lemma ptr_at_put_other: "p' + 8 \<le> p \<or> p + 8 \<le> p' \<Longrightarrow> ptr_at (put_ptr m p q) p' = ptr_at m p'"
  by (rule ptr_at_cong) (auto simp: put_ptr_def)

lemma ptr_at_range: "0 \<le> ptr_at m p \<and> ptr_at m p < 2 ^ 64"
proof -
  have "uint (m p) < 2 ^ 32" "uint (m (p + 4)) < 2 ^ 32"
    using uint_bounded [of "m p"] uint_bounded [of "m (p + 4)"] by simp_all
  then show ?thesis unfolding ptr_at_def by (simp add: add_nonneg_nonneg) 
qed

lemma lseg_cong:
  "(\<forall>x\<in>set xs. \<forall>a\<in>links x. m' a = m a) \<Longrightarrow> lseg m' p q xs e = lseg m p q xs e"
proof (induction xs arbitrary: p q)
  case Nil
  then show ?case by simp
next
  case (Cons x xs)
  have "ptr_at m' x = ptr_at m x" "ptr_at m' (x + 8) = ptr_at m (x + 8)"
    using Cons.prems by (simp_all add: ptr_at_def links_def ac_simps)
  with Cons show ?case by simp
qed

lemma lseg_append:
  "lseg m p q (xs @ ys) e \<longleftrightarrow> (\<exists>r. lseg m p q xs r \<and> lseg m r (last (q # xs)) ys e)"
  by (induction xs arbitrary: p q) auto

lemma lseg_nonzero: "lseg m p q xs e \<Longrightarrow> 0 \<notin> set xs"
  by (induction xs arbitrary: p q) auto


lemma lseg_put_frame:
  "\<forall>x\<in>set xs. c \<notin> links x \<and> c + 4 \<notin> links x \<Longrightarrow>
   lseg (put_ptr m c v) p q xs e = lseg m p q xs e"
  by (rule lseg_cong) (auto simp: put_ptr_def)

lemma spaced_Cons:
  "spaced (x # xs) \<longleftrightarrow> (\<forall>y\<in>set xs. x \<noteq> y \<longrightarrow> x + 16 \<le> y \<or> y + 16 \<le> x) \<and> spaced xs"
  by (auto simp: spaced_def)

lemma spaced_append:
  "spaced (xs @ ys) \<Longrightarrow> spaced xs \<and> spaced ys"
  by (auto simp: spaced_def)

lemma lseg_set_prev_first:
  assumes "lseg m p q (z # zs) e" "spaced (z # zs)" "z \<notin> set zs" "0 \<le> q'" "q' < 2 ^ 64"
  shows "lseg (put_ptr m (z + 8) q') p q' (z # zs) e"
proof -
  have f: "lseg (put_ptr m (z + 8) q') (ptr_at m z) z zs e = lseg m (ptr_at m z) z zs e"
    using assms(2,3) by (intro lseg_put_frame) (auto simp: spaced_Cons links_def)
  have "ptr_at (put_ptr m (z + 8) q') z = ptr_at m z"
    by (rule ptr_at_put_other) simp
  with assms f show ?thesis
    by (simp add: ptr_at_put_same)
qed

lemma lseg_set_next_last:
  assumes "lseg m p q (ys @ [y]) e" "spaced (ys @ [y])" "y \<notin> set ys" "0 \<le> e'" "e' < 2 ^ 64"
  shows "lseg (put_ptr m y e') p q (ys @ [y]) e'"
proof -
  from assms(1) obtain r where r: "lseg m p q ys r" "lseg m r (last (q # ys)) [y] e"
    unfolding lseg_append by blast
  have f: "lseg (put_ptr m y e') p q ys r = lseg m p q ys r"
    using assms(2,3) by (intro lseg_put_frame) (auto simp: spaced_def links_def)
  have "ptr_at (put_ptr m y e') (y + 8) = ptr_at m (y + 8)"
    by (rule ptr_at_put_other) simp
  with r f assms(4,5) show ?thesis
    unfolding lseg_append by (auto simp: ptr_at_put_same)
qed

lemma GET_NEXT_eq: "lvalid s x \<Longrightarrow> GET_NEXT s x = Some (ptr_at (mem s) x)"
  using lvalid_valid [of s x] by (simp add: GET_NEXT_def GET_PTR_eq)

lemma GET_PREV_eq: "lvalid s x \<Longrightarrow> GET_PREV s x = Some (ptr_at (mem s) (x + 8))"
  using lvalid_valid [of s x] by (simp add: GET_PREV_def GET_PTR_eq DSIZE_def add.assoc)

lemma SET_NEXT_eq:
  "valid s x \<Longrightarrow> valid s (x + 4) \<Longrightarrow> SET_NEXT s x q = Some (s\<lparr>mem := put_ptr (mem s) x q\<rparr>)"
  by (simp add: SET_NEXT_def PUT_PTR_eq)

lemma SET_PREV_eq:
  "valid s (x + 8) \<Longrightarrow> valid s (x + 12) \<Longrightarrow>
   SET_PREV s x q = Some (s\<lparr>mem := put_ptr (mem s) (x + 8) q\<rparr>)"
  by (simp add: SET_PREV_def PUT_PTR_eq DSIZE_def add.assoc)

lemma efl_remove_eq:
  fixes s x
  defines "pv \<equiv> ptr_at (mem s) (x + 8)" and "nx \<equiv> ptr_at (mem s) x"
  defines "m1 \<equiv> (if pv \<noteq> 0 then put_ptr (mem s) pv nx else mem s)"
  defines "nx1 \<equiv> ptr_at m1 x"
  assumes v: "lvalid s x"
    and vp: "pv \<noteq> 0 \<longrightarrow> valid s pv \<and> valid s (pv + 4)"
    and vn: "nx1 \<noteq> 0 \<longrightarrow> valid s (nx1 + 8) \<and> valid s (nx1 + 12)"
  shows "edit_free_list s x 0 =
         Some (s\<lparr>mem := (if nx1 \<noteq> 0 then put_ptr m1 (nx1 + 8) (ptr_at m1 (x + 8)) else m1),
                 free_listp := (if pv \<noteq> 0 then free_listp s else nx)\<rparr>)"
proof (cases "pv = 0")
  case True
  then have m1: "m1 = mem s" by (simp add: m1_def)
  have "edit_free_list s x 0 =
        (if nx \<noteq> 0 then SET_PREV (s\<lparr>free_listp := nx\<rparr>) nx pv else Some (s\<lparr>free_listp := nx\<rparr>))"
    unfolding edit_free_list_def using v True
    by (simp add: GET_NEXT_eq GET_PREV_eq flip: nx_def pv_def)
  also have "\<dots> = (if nx \<noteq> 0 then Some (s\<lparr>free_listp := nx, mem := put_ptr (mem s) (nx + 8) pv\<rparr>)
                    else Some (s\<lparr>free_listp := nx\<rparr>))"
    using vn by (simp add: SET_PREV_eq nx1_def m1 flip: nx_def)
  finally show ?thesis
    using True by (simp add: nx1_def m1 flip: nx_def pv_def)
next
  case False
  have "edit_free_list s x 0 =
        (if nx1 \<noteq> 0 then SET_PREV (s\<lparr>mem := m1\<rparr>) nx1 (ptr_at m1 (x + 8)) else Some (s\<lparr>mem := m1\<rparr>))"
    unfolding edit_free_list_def using v False vp
    by (simp add: GET_NEXT_eq GET_PREV_eq SET_NEXT_eq m1_def nx1_def flip: nx_def pv_def)
  also have "\<dots> = (if nx1 \<noteq> 0 then Some (s\<lparr>mem := put_ptr m1 (nx1 + 8) (ptr_at m1 (x + 8))\<rparr>)
                    else Some (s\<lparr>mem := m1\<rparr>))"
    using vn by (simp add: SET_PREV_eq)
  finally show ?thesis
    using False by simp
qed

lemma efl_insert_eq:
  fixes s bp
  defines "h \<equiv> free_listp s"
  assumes v: "lvalid s bp" and vh: "h \<noteq> 0 \<longrightarrow> valid s (h + 8) \<and> valid s (h + 12)"
  shows "edit_free_list s bp 1 =
         Some (s\<lparr>mem := put_ptr (if h \<noteq> 0 then put_ptr (put_ptr (mem s) (h + 8) bp) bp h
                                   else put_ptr (mem s) bp 0) (bp + 8) 0,
                 free_listp := bp\<rparr>)"
proof -
  note vx = lvalid_valid [OF v]
  show ?thesis
    unfolding edit_free_list_def
    using vx vh
    by (simp add: h_def SET_NEXT_eq SET_PREV_eq)
qed


lemma efl_insert:
  assumes L: "lseg (mem s) (free_listp s) 0 xs 0"
    and V: "\<forall>y\<in>set xs. lvalid s y" "lvalid s bp"
    and R: "0 < bp" "bp < 2 ^ 64" "\<forall>y\<in>set xs. 0 \<le> y \<and> y < 2 ^ 64"
    and D: "spaced (bp # xs)" "bp \<notin> set xs" "distinct xs"
  shows "\<exists>m'. edit_free_list s bp 1 = Some (s\<lparr>mem := m', free_listp := bp\<rparr>) \<and>
               lseg m' bp 0 (bp # xs) 0 \<and>
               (\<forall>a. a \<notin> links bp \<longrightarrow> (\<forall>y\<in>set xs. a \<notin> links y) \<longrightarrow> m' a = mem s a)"
proof (cases xs)
  case Nil
  with L have h: "free_listp s = 0" by simp
  let ?m = "put_ptr (put_ptr (mem s) bp 0) (bp + 8) 0"
  have e: "edit_free_list s bp 1 = Some (s\<lparr>mem := ?m, free_listp := bp\<rparr>)"
    using efl_insert_eq [OF V(2)] h by simp
  have "ptr_at ?m bp = 0"
    by (simp add: ptr_at_put_other ptr_at_put_same)
  moreover have "ptr_at ?m (bp + 8) = 0"
    by (simp add: ptr_at_put_same)
  ultimately have "lseg ?m bp 0 (bp # xs) 0"
    using R(1) Nil by simp
  moreover have "\<forall>a. a \<notin> links bp \<longrightarrow> ?m a = mem s a"
    by (auto simp: links_def put_ptr_def)
  ultimately show ?thesis using e by blast
next
  case (Cons h t)
  with L have h: "free_listp s = h" "h \<noteq> 0" by simp_all
  have vh: "valid s (h + 8) \<and> valid s (h + 12)"
    using V(1) Cons lvalid_valid [of s h] by simp
  have hr: "0 \<le> h" "h < 2 ^ 64" using R(3) Cons by simp_all
  have far: "h + 16 \<le> bp \<or> bp + 16 \<le> h"
    using D(1,2) Cons by (auto simp: spaced_Cons)
  let ?m1 = "put_ptr (mem s) (h + 8) bp"
  let ?m2 = "put_ptr ?m1 bp h"
  let ?m = "put_ptr ?m2 (bp + 8) 0"
  have e: "edit_free_list s bp 1 = Some (s\<lparr>mem := ?m, free_listp := bp\<rparr>)"
    using efl_insert_eq [OF V(2)] h vh by simp
  have sp: "spaced (h # t)" "h \<notin> set t"
    using D Cons by (simp_all add: spaced_Cons)
  have l1: "lseg ?m1 h bp (h # t) 0"
    using L R(1,2) sp unfolding Cons h
    by (intro lseg_set_prev_first) simp_all
  have nb: "\<forall>x\<in>set (h # t). bp \<notin> links x \<and> bp + 4 \<notin> links x \<and> bp + 8 \<notin> links x \<and> bp + 12 \<notin> links x"
    using D(1,2) Cons by (auto simp: spaced_Cons links_def)
  have l2: "lseg ?m2 h bp (h # t) 0"
    using l1 nb by (subst lseg_put_frame) auto
  have l3: "lseg ?m h bp (h # t) 0"
    using l2 nb by (subst lseg_put_frame) (auto simp: add.assoc)
  have "ptr_at ?m bp = h"
    using hr by (simp add: ptr_at_put_other ptr_at_put_same)
  moreover have "ptr_at ?m (bp + 8) = 0"
    by (simp add: ptr_at_put_same)
  ultimately have "lseg ?m bp 0 (bp # xs) 0"
    using l3 R(1) Cons by simp
  moreover have "\<forall>a. a \<notin> links bp \<longrightarrow> (\<forall>y\<in>set xs. a \<notin> links y) \<longrightarrow> ?m a = mem s a"
    using Cons by (auto simp: links_def put_ptr_def)
  ultimately show ?thesis using e by blast
qed

lemma efl_remove:
  assumes L: "lseg (mem s) (free_listp s) 0 xs 0"
    and X: "x \<in> set xs"
    and V: "\<forall>y\<in>set xs. lvalid s y"
    and R: "\<forall>y\<in>set xs. 0 \<le> y \<and> y < 2 ^ 64"
    and D: "spaced xs" "distinct xs"
  shows "\<exists>m' h'. edit_free_list s x 0 = Some (s\<lparr>mem := m', free_listp := h'\<rparr>) \<and>
               lseg m' h' 0 (remove1 x xs) 0 \<and>
               (\<forall>a. (\<forall>y\<in>set xs. y \<noteq> x \<longrightarrow> a \<notin> links y) \<longrightarrow> m' a = mem s a)"
proof -
  from X obtain ys zs where xs: "xs = ys @ x # zs"
    by (auto dest: split_list)
  with D(2) have nin: "x \<notin> set ys" "x \<notin> set zs" by auto
  then have rm: "remove1 x xs = ys @ zs"
    by (simp add: xs remove1_append)
  let ?m = "mem s"
  let ?h = "free_listp s"
  let ?pv = "ptr_at ?m (x + 8)"
  let ?nx = "ptr_at ?m x"
  from L obtain "lseg ?m ?h 0 ys x" and x0: "x \<noteq> 0" and pv: "?pv = last (0 # ys)"
    and lz: "lseg ?m ?nx x zs 0"
    unfolding xs lseg_append by auto
  note ly = \<open>lseg ?m ?h 0 ys x\<close>
  have vx: "lvalid s x" using V X by blast
  have nxr: "0 \<le> ?nx" "?nx < 2 ^ 64" using ptr_at_range [of ?m x] by simp_all
  have pvr: "0 \<le> ?pv" "?pv < 2 ^ 64" using ptr_at_range [of ?m "x + 8"] by simp_all
  have spy: "spaced ys" and spz: "spaced zs"
    using D(1) unfolding xs by (auto simp: spaced_def)
  have yz: "\<forall>y\<in>set ys. \<forall>z\<in>set zs. y + 16 \<le> z \<or> z + 16 \<le> y"
  proof (intro ballI)
    fix y z
    assume "y \<in> set ys" "z \<in> set zs"
    then have "y \<noteq> z" "y \<in> set xs" "z \<in> set xs"
      using D(2) unfolding xs by auto
    then show "y + 16 \<le> z \<or> z + 16 \<le> y"
      using D(1) unfolding spaced_def by blast
  qed
  have xy: "\<forall>y\<in>set ys. y + 16 \<le> x \<or> x + 16 \<le> y"
    using D nin unfolding xs by (auto simp: spaced_def)
  have xz: "\<forall>z\<in>set zs. z + 16 \<le> x \<or> x + 16 \<le> z"
    using D nin unfolding xs by (auto simp: spaced_def)
  define m1 where "m1 = (if ?pv \<noteq> 0 then put_ptr ?m ?pv ?nx else ?m)"
  define h1 where "h1 = (if ?pv \<noteq> 0 then ?h else ?nx)"
  \<comment> \<open>the part of the list before \<open>x\<close>, now ending in the successor of \<open>x\<close>\<close>
  have pvy: "?pv \<noteq> 0 \<Longrightarrow> ys \<noteq> [] \<and> ?pv = last ys"
    using pv by (cases ys) auto
  have A: "lseg m1 h1 0 ys ?nx \<and> ptr_at m1 x = ?nx \<and> ptr_at m1 (x + 8) = ?pv \<and>
           lseg m1 ?nx x zs 0 \<and> (?pv \<noteq> 0 \<longrightarrow> valid s ?pv \<and> valid s (?pv + 4)) \<and>
           (\<forall>a. (\<forall>y\<in>set ys. a \<notin> links y) \<longrightarrow> m1 a = ?m a)"
  proof (cases "?pv = 0")
    case True
    then have "ys = []" using pv ly lseg_nonzero [OF ly] by (cases ys rule: rev_cases) auto
    with ly True lz show ?thesis by (simp add: m1_def h1_def)
  next
    case False
    from pvy [OF False] obtain ys' y where ys: "ys = ys' @ [y]" and y: "?pv = y"
      by (cases ys rule: rev_cases) auto
    have yin: "y \<in> set ys" by (simp add: ys)
    have yy: "y \<notin> set ys'" using D(2) unfolding xs ys by simp
    have m1: "m1 = put_ptr ?m y ?nx" using False y by (simp add: m1_def)
    have a1: "lseg m1 h1 0 ys ?nx"
      unfolding m1 ys using ly spy yy nxr False
      by (intro lseg_set_next_last [where e = x]) (simp_all add: ys h1_def)
    have fx: "y + 16 \<le> x \<or> x + 16 \<le> y" using xy yin by blast
    have a2: "ptr_at m1 x = ?nx" "ptr_at m1 (x + 8) = ?pv"
      unfolding m1 using fx by (auto intro!: ptr_at_put_other)
    have "\<forall>z\<in>set zs. y \<notin> links z \<and> y + 4 \<notin> links z"
    proof
      fix z assume "z \<in> set zs"
      with yz yin have "y + 16 \<le> z \<or> z + 16 \<le> y" by blast
      then show "y \<notin> links z \<and> y + 4 \<notin> links z" by (auto simp: links_def)
    qed
    then have a3: "lseg m1 ?nx x zs 0"
      unfolding m1 using lz by (subst lseg_put_frame) auto
    have a4: "valid s y \<and> valid s (y + 4)"
      using V yin lvalid_valid [of s y] unfolding xs by auto
    have a5: "\<forall>a. (\<forall>y\<in>set ys. a \<notin> links y) \<longrightarrow> m1 a = ?m a"
      unfolding m1 using yin by (auto simp: put_ptr_def links_def)
    from a1 a2 a3 a4 a5 y show ?thesis by simp
  qed
  define m2 where "m2 = (if ?nx \<noteq> 0 then put_ptr m1 (?nx + 8) ?pv else m1)"
  have B: "lseg m2 h1 0 (ys @ zs) 0 \<and> (?nx \<noteq> 0 \<longrightarrow> valid s (?nx + 8) \<and> valid s (?nx + 12)) \<and>
           (\<forall>a. (\<forall>y\<in>set ys \<union> set zs. a \<notin> links y) \<longrightarrow> m2 a = ?m a)"
  proof (cases zs)
    case Nil
    with A have "?nx = 0" by simp
    with A Nil show ?thesis by (simp add: m2_def)
  next
    case (Cons z zs')
    with A have z: "?nx = z" "z \<noteq> 0" by simp_all
    have zin: "z \<in> set zs" by (simp add: Cons)
    have m2: "m2 = put_ptr m1 (z + 8) ?pv" using z by (simp add: m2_def)
    have zz: "z \<notin> set zs'" using D(2) unfolding xs Cons by simp
    have b1: "lseg m2 z ?pv zs 0"
      unfolding m2 Cons using A spz zz pvr z
      by (intro lseg_set_prev_first [where q = x]) (simp_all add: Cons)
    have "\<forall>y\<in>set ys. z + 8 \<notin> links y \<and> z + 8 + 4 \<notin> links y"
    proof
      fix y assume "y \<in> set ys"
      with yz zin have "y + 16 \<le> z \<or> z + 16 \<le> y" by blast
      then show "z + 8 \<notin> links y \<and> z + 8 + 4 \<notin> links y" by (auto simp: links_def)
    qed
    then have b2: "lseg m2 h1 0 ys z"
      unfolding m2 using A z by (subst lseg_put_frame) auto
    have lastq: "last (0 # ys) = ?pv" using pv by simp
    have b3: "lseg m2 h1 0 (ys @ zs) 0"
      unfolding lseg_append using b1 b2 lastq by auto
    have b4: "valid s (z + 8) \<and> valid s (z + 12)"
      using V zin lvalid_valid [of s z] unfolding xs by auto
    have b5: "\<forall>a. (\<forall>y\<in>set ys \<union> set zs. a \<notin> links y) \<longrightarrow> m2 a = ?m a"
      unfolding m2 using A zin by (auto simp: put_ptr_def links_def)
    from b3 b4 b5 z show ?thesis by simp
  qed
  have "edit_free_list s x 0 = Some (s\<lparr>mem := m2, free_listp := h1\<rparr>)"
    using efl_remove_eq [OF vx] A B
    by (simp add: m1_def m2_def h1_def)
  moreover have "\<forall>a. (\<forall>y\<in>set xs. y \<noteq> x \<longrightarrow> a \<notin> links y) \<longrightarrow> m2 a = ?m a"
    using B nin unfolding xs by auto
  ultimately show ?thesis using B rm by auto
qed

section \<open>Sizes, tags and nodes\<close>

lemma seven: "(7 :: 32 word) = mask 3"
  by (simp add: mask_eq_exp_minus_1)

lemma uint_and_7: "uint ((w :: 32 word) AND 7) = uint w mod 8"
  unfolding seven
  by (simp flip: take_bit_eq_mask add: unsigned_take_bit_eq take_bit_eq_mod uint_mod_distrib)

lemma and_not_7: "(w :: 32 word) AND NOT 7 = w - (w AND 7)"
proof -
  have "w AND NOT (mask 3) = push_bit 3 (drop_bit 3 w)"
    by (rule bit_eqI) (auto simp: bit_simps)
  moreover have "push_bit 3 (drop_bit 3 w) + take_bit 3 w = w"
    by (rule bits_ident)
  ultimately show ?thesis
    unfolding seven by (simp add: take_bit_eq_mask algebra_simps)
qed

lemma uint_and_not_7: "uint ((w :: 32 word) AND NOT 7) = 8 * (uint w div 8)"
proof -
  have "uint (w AND 7) \<le> uint w"
    unfolding uint_and_7 by (simp add: zmod_le_nonneg_dividend)
  then have "uint (w - (w AND 7)) = uint w - uint (w AND 7)"
    by (simp add: uint_sub_lem)
  then show ?thesis
    unfolding and_not_7 uint_and_7 by (simp add: minus_mod_eq_mult_div)
qed

lemma uint_and_1: "uint ((w :: 32 word) AND 1) = uint w mod 2"
  by (metis and_one_eq uint_and unsigned_1)

lemma al8_size: "al8 (w AND NOT 7)"
  unfolding al8_def uint_and_not_7 by simp

lemma al8_and_not_7: "al8 w \<Longrightarrow> w AND NOT 7 = w"
proof -
  assume "al8 w"
  then have "uint (w AND NOT 7) = uint w"
    unfolding uint_and_not_7 al8_def by presburger
  then show ?thesis by (simp add: word_uint_eq_iff)
qed

lemma not7: "(NOT 7 :: 32 word) = - 8"
  by simp

lemmas al8_and_m8 = al8_and_not_7 [unfolded not7]

lemmas uint_and_m8 = uint_and_not_7 [unfolded not7]

lemma al8_and_1: "al8 w \<Longrightarrow> w AND 1 = 0"
proof -
  assume "al8 w"
  then have "uint (w AND 1) = 0"
    unfolding uint_and_1 al8_def by presburger
  then show ?thesis by (simp add: word_uint_eq_iff)
qed

lemma al8_add: "al8 a \<Longrightarrow> al8 b \<Longrightarrow> al8 (a + b)"
proof -
  assume a: "al8 a" "al8 b"
  have "uint (a + b) = (uint a + uint b) mod 2 ^ 32"
    by (simp add: uint_word_ariths)
  moreover have "(uint a + uint b) mod 2 ^ 32 mod 8 = (uint a + uint b) mod 8"
    by (rule mod_mod_cancel) simp
  ultimately have "uint (a + b) mod 8 = (uint a + uint b) mod 8"
    by simp
  with a show ?thesis
    unfolding al8_def by presburger
qed

lemma uint_add_small: "uint (a :: 32 word) + uint b < 2 ^ 32 \<Longrightarrow> uint (a + b) = uint a + uint b"
  using uint_add_lem [of a b] by simp

lemma PACK_0 [simp]: "PACK w 0 = w"
  by (simp add: PACK_def)

lemma GET_SIZE_eq: "GET_SIZE s p = (if valid s p then Some (mem s p AND NOT 7) else None)"
  by (simp add: GET_SIZE_def GET_def)

lemma GET_ALLOC_eq: "GET_ALLOC s p = (if valid s p then Some (mem s p AND 1) else None)"
  by (simp add: GET_ALLOC_def GET_def)

lemma PUT_eq: "PUT s p v = (if valid s p then Some (s\<lparr>mem := (mem s)(p := v)\<rparr>) else None)"
  by (simp add: PUT_def)

lemma lvalid_iff: "lvalid s x \<longleftrightarrow> valid s x \<and> valid s (x + 4) \<and> valid s (x + 8) \<and> valid s (x + 12)"
  unfolding lvalid_def valid_def by presburger

lemma dll_lseg: "dll s p q xs \<longleftrightarrow> (\<forall>x\<in>set xs. lvalid s x) \<and> lseg (mem s) p q xs 0"
proof (induction xs arbitrary: p q)
  case Nil
  then show ?case by simp
next
  case (Cons x xs)
  show ?case
  proof (cases "lvalid s x")
    case True
    then show ?thesis
      using Cons by (auto simp: GET_NEXT_eq GET_PREV_eq)
  next
    case False
    then have "GET_PREV s x = None \<or> GET_NEXT s x = None"
      unfolding lvalid_iff by (auto simp: GET_PREV_def GET_NEXT_def GET_PTR_eq DSIZE_def add.assoc)
    with False show ?thesis by auto
  qed
qed

lemma free_list_ok_alt: "free_list_ok s xs \<longleftrightarrow> dll s (free_listp s) 0 xs \<and> nodes_ok s xs"
  by (auto simp: free_list_ok_def nodes_ok_def)

lemma free_block_lvalid: "free_block s x \<Longrightarrow> lvalid s x"
proof -
  assume "free_block s x"
  then have "x mod 8 = 0" "mem_start_brk s \<le> x - 4" "x + blk_size s x \<le> mem_brk s" "24 \<le> blk_size s x"
    by (simp_all add: free_block_def HDRP_def WSIZE_def)
  then show ?thesis
    unfolding lvalid_def by presburger
qed

lemma free_block_range: "region_ok s \<Longrightarrow> free_block s x \<Longrightarrow> 0 < x \<and> x < 2 ^ 64"
  unfolding free_block_def region_ok_def HDRP_def WSIZE_def by auto

lemma nodes_spaced: "nodes_ok s xs \<Longrightarrow> spaced xs"
  unfolding spaced_def
proof (intro ballI impI)
  fix x y
  assume n: "nodes_ok s xs" and "x \<in> set xs" "y \<in> set xs" "x \<noteq> y"
  then have "apart s x y" "24 \<le> blk_size s x" "24 \<le> blk_size s y"
    by (auto simp: nodes_ok_def free_block_def)
  then show "x + 16 \<le> y \<or> y + 16 \<le> x"
    unfolding apart_def by linarith
qed

lemma nodes_ok_remove1: "nodes_ok s xs \<Longrightarrow> nodes_ok s (remove1 x xs)"
  unfolding nodes_ok_def by (auto dest: notin_set_remove1)

lemma nodes_ok_filter: "nodes_ok s xs \<Longrightarrow> nodes_ok s (filter P xs)"
  unfolding nodes_ok_def by auto

lemma blk_size_al8: "blk_size s x mod 8 = 0"
  unfolding blk_size_def uint_and_not_7 by simp

lemma node_facts:
  assumes "nodes_ok s xs" "x \<in> set xs"
  shows "x mod 8 = 0" "24 \<le> blk_size s x" "mem_start_brk s \<le> x - 4"
    "x + blk_size s x \<le> mem_brk s" "mem s (x + blk_size s x - 8) = mem s (x - 4)"
    "mem s (x - 4) AND 1 = 0" "lvalid s x"
  using assms free_block_lvalid [of s x]
  by (auto simp: nodes_ok_def free_block_def HDRP_def WSIZE_def DSIZE_def is_free_def)

lemma node_apart:
  assumes "nodes_ok s xs" "x \<in> set xs" "y \<in> set xs" "x \<noteq> y"
  shows "x + blk_size s x \<le> y \<or> y + blk_size s y \<le> x"
  using assms by (auto simp: nodes_ok_def apart_def)

text \<open>The link cells of a node of the list are never the header or footer of a node.\<close>

lemma links_not_tags:
  assumes n: "nodes_ok s xs" and y: "y \<in> set xs" and x: "x \<in> set xs" and a: "a \<in> links y"
  shows "a \<noteq> x - 4 \<and> a \<noteq> x + blk_size s x - 8"
proof (cases "x = y")
  case True
  with node_facts(2) [OF n x] a show ?thesis by (auto simp: links_def)
next
  case False
  from node_apart [OF n x y False] node_facts(2) [OF n x] node_facts(2) [OF n y] a
  show ?thesis by (auto simp: links_def)
qed

lemma nodes_ok_frame:
  assumes n: "nodes_ok s xs"
    and r: "mem_start_brk s' = mem_start_brk s" "mem_brk s' = mem_brk s"
    and t: "\<forall>x\<in>set xs. mem s' (x - 4) = mem s (x - 4) \<and>
               mem s' (x + blk_size s x - 8) = mem s (x + blk_size s x - 8)"
  shows "nodes_ok s' xs \<and> (\<forall>x\<in>set xs. blk_size s' x = blk_size s x)"
proof -
  have b: "blk_size s' x = blk_size s x" if "x \<in> set xs" for x
    using t that by (simp add: blk_size_def HDRP_def WSIZE_def)
  have "free_block s' x" if "x \<in> set xs" for x
  proof -
    from n that have "free_block s x" by (simp add: nodes_ok_def)
    then show ?thesis
      using t that b [OF that] r
      by (simp add: free_block_def is_free_def HDRP_def WSIZE_def DSIZE_def)
  qed
  moreover have "apart s' x y" if "x \<in> set xs" "y \<in> set xs" "x \<noteq> y" for x y
    using n that b by (simp add: nodes_ok_def apart_def)
  ultimately show ?thesis
    using n b by (simp add: nodes_ok_def)
qed

lemma assemble:
  assumes R: "region_ok s" and n: "nodes_ok s xs" and sub: "set rest \<subseteq> set xs" "distinct rest"
    and reg: "mem_start_brk s' = mem_start_brk s" "mem_brk s' = mem_brk s"
    and L: "lseg (mem s') r 0 (r # rest) 0" "free_listp s' = r"
    and frame: "\<forall>a. (a < r - 4 \<or> r + T - 4 \<le> a) \<and> a \<notin> links r \<and> (\<forall>y\<in>set xs. a \<notin> links y)
                  \<longrightarrow> mem s' a = mem s a"
    and hdr: "mem s' (r - 4) = w" "w AND 1 = 0" "uint (w AND NOT 7) = T" "16 \<le> T"
      "24 \<le> T \<longrightarrow> mem s' (r + T - 8) = w"
    and r: "r mod 8 = 0" "mem_start_brk s \<le> r - 4" "r + T \<le> mem_brk s"
    and ap: "\<forall>x\<in>set rest. (x + blk_size s x \<le> r \<or> r + T \<le> x) \<and> x \<noteq> r + 16"
  shows "dll s' r 0 (r # rest) \<and> nodes_ok s' rest \<and> blk_size s' r = T \<and> is_free s' r \<and>
         (\<forall>x\<in>set rest. apart s' r x) \<and> (24 \<le> T \<longrightarrow> free_list_ok s' (r # rest)) \<and>
         (\<forall>x\<in>set rest. blk_size s' x = blk_size s x)"
proof -
  have nr: "nodes_ok s rest"
    using n sub by (auto simp: nodes_ok_def)
  have tags: "mem s' (x - 4) = mem s (x - 4) \<and>
              mem s' (x + blk_size s x - 8) = mem s (x + blk_size s x - 8)" if x: "x \<in> set rest" for x
  proof -
    from x sub have xx: "x \<in> set xs" by blast
    note f = node_facts [OF n xx]
    from ap x have a: "x + blk_size s x \<le> r \<or> r + T \<le> x" "x \<noteq> r + 16" by auto
    have 1: "\<forall>y\<in>set xs. x - 4 \<notin> links y \<and> x + blk_size s x - 8 \<notin> links y"
      using links_not_tags [OF n _ xx] by blast
    have 2: "x - 4 \<notin> links r \<and> x + blk_size s x - 8 \<notin> links r"
      using a f(1,2) r(1) hdr(4) unfolding links_def by auto
    have 3: "(x - 4 < r - 4 \<or> r + T - 4 \<le> x - 4)"
      "(x + blk_size s x - 8 < r - 4 \<or> r + T - 4 \<le> x + blk_size s x - 8)"
      using a f(2) by auto
    from frame 1 2 3 show ?thesis by blast
  qed
  from nodes_ok_frame [OF nr reg] tags
  have n': "nodes_ok s' rest" and b': "\<forall>x\<in>set rest. blk_size s' x = blk_size s x"
    by auto
  have bs: "blk_size s' r = T"
    using hdr(1,3) by (simp add: blk_size_def HDRP_def WSIZE_def)
  have fr: "is_free s' r"
    using hdr(1,2) by (simp add: is_free_def HDRP_def WSIZE_def)
  have ap': "\<forall>x\<in>set rest. apart s' r x"
    using ap b' bs by (auto simp: apart_def)
  have lv: "lvalid s' r"
    using r hdr(4) reg unfolding lvalid_def by presburger
  have lvs: "\<forall>x\<in>set rest. lvalid s' x"
    using n' by (auto simp: nodes_ok_def free_block_lvalid)
  have d: "dll s' r 0 (r # rest)"
    unfolding dll_lseg using L lv lvs by simp
  have "free_list_ok s' (r # rest)" if "24 \<le> T"
  proof -
    have "free_block s' r"
      using that hdr(1,5) bs fr r reg
      by (simp add: free_block_def HDRP_def WSIZE_def DSIZE_def)
    moreover have "r \<notin> set rest"
    proof
      assume "r \<in> set rest"
      with ap' have "apart s' r r" by blast
      then show False using bs that by (simp add: apart_def)
    qed
    moreover have "apart s' x r" if "x \<in> set rest" for x
      using ap' that by (auto simp: apart_def)
    ultimately show ?thesis
      unfolding free_list_ok_alt using d L(2) n' ap'
      by (auto simp: nodes_ok_def)
  qed
  with d n' bs fr ap' b' show ?thesis by blast
qed

section \<open>Coalescing\<close>

lemma valid_iff: "valid s p \<longleftrightarrow> mem_start_brk s \<le> p \<and> p + 4 \<le> mem_brk s \<and> p mod 4 = 0"
  by (simp add: valid_def)

lemma pre_facts:
  assumes "blk_pre s xs bp"
  shows "region_ok s" "dll s (free_listp s) 0 xs" "nodes_ok s xs"
    "bp mod 8 = 0" "16 \<le> blk_size s bp" "mem_start_brk s \<le> bp - 8"
    "bp + blk_size s bp \<le> mem_brk s"
    "\<forall>x\<in>set xs. x + blk_size s x \<le> bp \<or> bp + blk_size s bp \<le> x"
    "prev_blk s bp = bp \<or>
       mem_start_brk s \<le> prev_blk s bp - 4 \<and> mem s (prev_blk s bp - 4) = mem s (bp - 8)"
    "prev_free s bp \<longrightarrow> prev_blk s bp \<in> set xs"
    "next_free s bp \<longrightarrow> bp + blk_size s bp \<in> set xs"
  using assms
  by (auto simp: blk_pre_def free_list_ok_alt DSIZE_def WSIZE_def HDRP_def next_blk_def apart_def)

lemma prev_blk_facts:
  "prev_blk s bp \<le> bp" "(bp - prev_blk s bp) mod 8 = 0"
  "bp - prev_blk s bp = uint (mem s (bp - 8) AND NOT 7)"
  unfolding prev_blk_def DSIZE_def uint_and_not_7 by (simp_all add: pos_imp_zdiv_nonneg_iff)

lemma coalesce_reads:
  assumes p: "coalesce_pre s xs bp"
  shows "PREV_BLKP s bp = Some (prev_blk s bp)"
    and "\<exists>fpb pa. FTRP s (prev_blk s bp) = Some fpb \<and> GET_ALLOC s fpb = Some pa \<and>
           ((pa \<noteq> 0 \<or> prev_blk s bp = bp) \<longleftrightarrow> \<not> prev_free s bp)"
    and "NEXT_BLKP s bp = Some (next_blk s bp)"
    and "\<exists>na. GET_ALLOC s (HDRP (next_blk s bp)) = Some na \<and> ((na \<noteq> 0) \<longleftrightarrow> \<not> next_free s bp)"
    and "GET_SIZE s (HDRP bp) = Some (mem s (bp - 4) AND NOT 7)"
proof -
  from p have b: "blk_pre s xs bp" and fr: "mem s (bp - 4) AND 1 = 0"
    and ft: "mem s (bp + blk_size s bp - 8) = mem s (bp - 4)"
    by (simp_all add: coalesce_pre_def is_free_def HDRP_def WSIZE_def DSIZE_def next_blk_def)
  note f = pre_facts [OF b]
  note al = blk_size_al8 [of s bp]
  have v8: "valid s (bp - 8)" and v4: "valid s (bp - 4)"
    and vn8: "valid s (bp + blk_size s bp - 8)" and vn4: "valid s (bp + blk_size s bp - 4)"
    unfolding valid_iff using f(4,5,6,7) al by (presburger+)
  show "PREV_BLKP s bp = Some (prev_blk s bp)"
    using v8 by (simp add: PREV_BLKP_def GET_SIZE_eq DSIZE_def prev_blk_def)
  show "NEXT_BLKP s bp = Some (next_blk s bp)"
    using v4 by (simp add: NEXT_BLKP_def GET_SIZE_eq WSIZE_def next_blk_def blk_size_def HDRP_def)
  show "GET_SIZE s (HDRP bp) = Some (mem s (bp - 4) AND NOT 7)"
    using v4 by (simp add: GET_SIZE_eq HDRP_def WSIZE_def)
  show "\<exists>na. GET_ALLOC s (HDRP (next_blk s bp)) = Some na \<and> ((na \<noteq> 0) \<longleftrightarrow> \<not> next_free s bp)"
    using vn4 by (simp add: GET_ALLOC_eq HDRP_def WSIZE_def next_blk_def next_free_def is_free_def)
  show "\<exists>fpb pa. FTRP s (prev_blk s bp) = Some fpb \<and> GET_ALLOC s fpb = Some pa \<and>
           ((pa \<noteq> 0 \<or> prev_blk s bp = bp) \<longleftrightarrow> \<not> prev_free s bp)"
  proof (cases "prev_blk s bp = bp")
    case True
    have "FTRP s bp = Some (bp + blk_size s bp - 8)"
      using v4 by (simp add: FTRP_def GET_SIZE_eq HDRP_def WSIZE_def DSIZE_def blk_size_def)
    moreover have "GET_ALLOC s (bp + blk_size s bp - 8) = Some 0"
      using vn8 ft fr by (simp add: GET_ALLOC_eq)
    ultimately show ?thesis
      using True by (simp add: prev_free_def)
  next
    case False
    with f(9) have h: "mem_start_brk s \<le> prev_blk s bp - 4"
      "mem s (prev_blk s bp - 4) = mem s (bp - 8)" by simp_all
    have vp: "valid s (prev_blk s bp - 4)"
      unfolding valid_iff using h(1) prev_blk_facts [where s = s and bp = bp] f(4,7,5) by presburger
    have "FTRP s (prev_blk s bp) = Some (bp - 8)"
      using vp h(2) prev_blk_facts(3) [where s = s and bp = bp]
      by (simp add: FTRP_def GET_SIZE_eq HDRP_def WSIZE_def DSIZE_def)
    moreover have "GET_ALLOC s (bp - 8) = Some (mem s (bp - 8) AND 1)"
      using v8 by (simp add: GET_ALLOC_eq)
    ultimately show ?thesis
      using False by (simp add: prev_free_def DSIZE_def)
  qed
qed

lemma static_list:
  assumes "region_ok s" "nodes_ok s xs"
  shows "\<forall>y\<in>set xs. lvalid s y" "\<forall>y\<in>set xs. 0 \<le> y \<and> y < 2 ^ 64" "spaced xs" "distinct xs"
  using assms free_block_range [OF assms(1)] nodes_spaced [OF assms(2)]
  by (auto simp: nodes_ok_def free_block_lvalid intro: less_imp_le)

lemma bp_static:
  assumes b: "blk_pre s xs bp"
  shows "lvalid s bp" "0 < bp" "bp < 2 ^ 64" "bp \<notin> set xs"
    "\<forall>y\<in>set xs. bp + 16 \<le> y \<or> y + 16 \<le> bp"
proof -
  note f = pre_facts [OF b]
  show "lvalid s bp"
    unfolding lvalid_def using f(4,5,6,7) by presburger
  show "0 < bp" "bp < 2 ^ 64"
    using f(1,5,6,7) by (auto simp: region_ok_def)
  show "bp \<notin> set xs"
    using f(8,5) by auto
  show "\<forall>y\<in>set xs. bp + 16 \<le> y \<or> y + 16 \<le> bp"
  proof
    fix y assume y: "y \<in> set xs"
    from f(8) y have "y + blk_size s y \<le> bp \<or> bp + blk_size s bp \<le> y" by blast
    with node_facts(2) [OF f(3) y] f(5) show "bp + 16 \<le> y \<or> y + 16 \<le> bp" by linarith
  qed
qed

lemma links_in_node:
  assumes "nodes_ok s xs" "y \<in> set xs" "a \<in> links y"
  shows "y \<le> a \<and> a < y + blk_size s y - 8"
  using node_facts(2) [OF assms(1,2)] assms(3) by (auto simp: links_def)

lemma coalesce_case1:
  assumes p: "coalesce_pre s xs bp" and c: "\<not> prev_free s bp" "\<not> next_free s bp"
  shows "\<exists>m'. coal_res s xs bp bp (mem s (bp - 4)) xs m'"
proof -
  from p have b: "blk_pre s xs bp"
    and ft: "mem s (bp + blk_size s bp - 8) = mem s (bp - 4)"
    by (simp_all add: coalesce_pre_def is_free_def HDRP_def WSIZE_def DSIZE_def next_blk_def)
  note f = pre_facts [OF b]
  note st = static_list [OF f(1,3)]
  note bs = bp_static [OF b]
  from coalesce_reads [OF p] c
  have co: "coalesce s bp = do { s'' \<leftarrow> edit_free_list s bp 1; Some (s'', bp) }"
    unfolding coalesce_def by (auto simp: Let_def)
  have L: "lseg (mem s) (free_listp s) 0 xs 0"
    using f(2) by (simp add: dll_lseg)
  have sp: "spaced (bp # xs)"
    using st(3) bs(5) by (auto simp: spaced_Cons)
  from efl_insert [OF L st(1) bs(1,2,3) st(2) sp bs(4) st(4)]
  obtain m' where m': "edit_free_list s bp 1 = Some (s\<lparr>mem := m', free_listp := bp\<rparr>)"
    "lseg m' bp 0 (bp # xs) 0"
    "\<forall>a. a \<notin> links bp \<longrightarrow> (\<forall>y\<in>set xs. a \<notin> links y) \<longrightarrow> m' a = mem s a"
    by blast
  have out: "a \<notin> links y" if "y \<in> set xs" "bp - 4 \<le> a" "a < bp + blk_size s bp - 4" for a y
  proof
    assume "a \<in> links y"
    from links_in_node [OF f(3) that(1) this] f(8) that show False by fastforce
  qed
  have h: "m' (bp - 4) = mem s (bp - 4)"
    using m'(3) out [of _ "bp - 4"] f(5) by (auto simp: links_def)
  have "m' (bp + blk_size s bp - 8) = mem s (bp - 4)" if "24 \<le> blk_size s bp"
    using m'(3) out [of _ "bp + blk_size s bp - 8"] that ft by (auto simp: links_def)
  with h m' co show ?thesis
    unfolding coal_res_def by (auto simp: blk_size_def HDRP_def WSIZE_def)
qed


lemma remove_step:
  assumes "\<forall>y\<in>set ys. lvalid s y" "\<forall>y\<in>set ys. 0 \<le> y \<and> y < 2 ^ 64" "spaced ys" "distinct ys"
    and "lseg m h 0 ys 0" "x \<in> set ys"
  shows "\<exists>m' h'. edit_free_list (s\<lparr>mem := m, free_listp := h\<rparr>) x 0 = Some (s\<lparr>mem := m', free_listp := h'\<rparr>) \<and>
           lseg m' h' 0 (remove1 x ys) 0 \<and>
           (\<forall>a. (\<forall>y\<in>set ys. y \<noteq> x \<longrightarrow> a \<notin> links y) \<longrightarrow> m' a = m a)"
  using efl_remove [of "s\<lparr>mem := m, free_listp := h\<rparr>" ys x] assms by simp

lemma insert_step:
  assumes "\<forall>y\<in>set ys. lvalid s y" "\<forall>y\<in>set ys. 0 \<le> y \<and> y < 2 ^ 64" "spaced (r # ys)" "distinct ys"
    and "lseg m h 0 ys 0" "r \<notin> set ys" "lvalid s r" "0 < r" "r < 2 ^ 64"
  shows "\<exists>m'. edit_free_list (s\<lparr>mem := m, free_listp := h\<rparr>) r 1 = Some (s\<lparr>mem := m', free_listp := r\<rparr>) \<and>
           lseg m' r 0 (r # ys) 0 \<and>
           (\<forall>a. a \<notin> links r \<longrightarrow> (\<forall>y\<in>set ys. a \<notin> links y) \<longrightarrow> m' a = m a)"
  using efl_insert [of "s\<lparr>mem := m, free_listp := h\<rparr>" ys r] assms by simp

lemma put_step:
  "valid s c \<Longrightarrow> PUT (s\<lparr>mem := m, free_listp := h\<rparr>) c v = Some (s\<lparr>mem := m(c := v), free_listp := h\<rparr>)"
  by (simp add: PUT_eq)

lemma lseg_upd:
  "\<forall>y\<in>set ys. c \<notin> links y \<Longrightarrow> lseg (m(c := v)) p q ys e = lseg m p q ys e"
  by (rule lseg_cong) auto

lemma ftrp_step:
  "valid s (b - 4) \<Longrightarrow>
   FTRP (s\<lparr>mem := m, free_listp := h\<rparr>) b = Some (b + uint (m (b - 4) AND NOT 7) - 8)"
  by (simp add: FTRP_def GET_SIZE_eq HDRP_def WSIZE_def DSIZE_def)

lemma prevblk_step:
  "valid s (b - 8) \<Longrightarrow>
   PREV_BLKP (s\<lparr>mem := m, free_listp := h\<rparr>) b = Some (b - uint (m (b - 8) AND NOT 7))"
  by (simp add: PREV_BLKP_def GET_SIZE_eq DSIZE_def)

lemma state_self: "s\<lparr>mem := mem s, free_listp := free_listp s\<rparr> = s"
  by simp

lemma filter_notin: "x \<notin> set xs \<Longrightarrow> filter (\<lambda>y. y \<noteq> x) xs = xs"
  by (induction xs) auto

lemma remove1_filter: "distinct xs \<Longrightarrow> remove1 x xs = filter (\<lambda>y. y \<noteq> x) xs"
  by (induction xs) (auto simp: filter_notin)

lemma next_node:
  assumes b: "blk_pre s xs bp" and nf: "next_free s bp"
  shows "bp + blk_size s bp \<in> set xs"
    "uint ((mem s (bp - 4) AND NOT 7) + (mem s (bp + blk_size s bp - 4) AND NOT 7)) =
       blk_size s bp + blk_size s (bp + blk_size s bp)"
proof -
  note f = pre_facts [OF b]
  show n: "bp + blk_size s bp \<in> set xs" using f(11) nf by simp
  note nf = node_facts [OF f(3) n]
  have "blk_size s bp + blk_size s (bp + blk_size s bp) < 2 ^ 32"
    using f(1,6) nf(4) by (simp add: region_ok_def)
  then show "uint ((mem s (bp - 4) AND NOT 7) + (mem s (bp + blk_size s bp - 4) AND NOT 7)) =
       blk_size s bp + blk_size s (bp + blk_size s bp)"
    by (simp add: uint_add_small blk_size_def HDRP_def WSIZE_def)
qed

lemma coalesce_case2:
  assumes p: "coalesce_pre s xs bp" and c: "\<not> prev_free s bp" "next_free s bp"
  shows "\<exists>m'. coal_res s xs bp bp
           ((mem s (bp - 4) AND NOT 7) + (mem s (next_blk s bp - 4) AND NOT 7))
           (remove1 (next_blk s bp) xs) m'"
proof -
  from p have b: "blk_pre s xs bp"
    by (simp_all add: coalesce_pre_def)
  note f = pre_facts [OF b]
  note st = static_list [OF f(1,3)]
  note bs = bp_static [OF b]
  define N where "N = bp + blk_size s bp"
  define W where "W = (mem s (bp - 4) AND NOT 7) + (mem s (N - 4) AND NOT 7)"
  define rest where "rest = remove1 N xs"
  have nb: "next_blk s bp = N" by (simp add: next_blk_def N_def)
  from next_node [OF b c(2)] have N: "N \<in> set xs"
    and uW: "uint W = blk_size s bp + blk_size s N"
    by (simp_all add: N_def W_def)
  note nn = node_facts [OF f(3) N]
  have aW: "al8 W" unfolding W_def by (intro al8_add al8_size)
  then have uW7: "uint (W AND NOT 7) = blk_size s bp + blk_size s N"
    using uW by (simp add: al8_and_m8)
  have vN4: "valid s (N - 4)" and v4: "valid s (bp - 4)" and vE: "valid s (N + blk_size s N - 8)"
    unfolding valid_iff N_def using f(4,5,6,7) blk_size_al8 [of s bp] nn(2,4) blk_size_al8 [of s N]
    unfolding N_def by presburger+
  have gs: "GET_SIZE s (N - 4) = Some (mem s (N - 4) AND NOT 7)"
    using vN4 by (simp add: GET_SIZE_eq)
  from coalesce_reads [OF p] c
  have co: "coalesce s bp = do {
      s1 \<leftarrow> edit_free_list s N 0;
      s2 \<leftarrow> PUT s1 (bp - 4) W;
      f \<leftarrow> FTRP s2 bp;
      s3 \<leftarrow> PUT s2 f W;
      s'' \<leftarrow> edit_free_list s3 bp 1; Some (s'', bp) }"
    unfolding coalesce_def by (auto simp: Let_def nb gs W_def HDRP_def WSIZE_def)
  have L: "lseg (mem s) (free_listp s) 0 xs 0"
    using f(2) by (simp add: dll_lseg)
  from efl_remove [OF L N st]
  obtain m1 h1 where r1: "edit_free_list s N 0 = Some (s\<lparr>mem := m1, free_listp := h1\<rparr>)"
    "lseg m1 h1 0 rest 0"
    "\<forall>a. (\<forall>y\<in>set xs. y \<noteq> N \<longrightarrow> a \<notin> links y) \<longrightarrow> m1 a = mem s a"
    unfolding rest_def by blast
  define m3 where "m3 = m1(bp - 4 := W, N + blk_size s N - 8 := W)"
  have strest: "\<forall>y\<in>set rest. lvalid s y" "\<forall>y\<in>set rest. 0 \<le> y \<and> y < 2 ^ 64" "distinct rest"
    "set rest \<subseteq> set xs" "N \<notin> set rest" "bp \<notin> set rest"
    using st bs(4) unfolding rest_def by (auto dest: notin_set_remove1)
  have sprest: "spaced (bp # rest)"
    using st(3) bs(5) strest(4) by (auto simp: spaced_Cons spaced_def)
  \<comment> \<open>cells of the merged block are not link cells of the remaining nodes\<close>
  have out: "a \<notin> links y" if "y \<in> set rest" "bp - 4 \<le> a" "a < N + blk_size s N - 4" for a y
  proof
    assume a: "a \<in> links y"
    from that(1) strest have y: "y \<in> set xs" "y \<noteq> N" by auto
    from links_in_node [OF f(3) y(1) a] f(8) y(1) node_apart [OF f(3) y(1) N y(2)] that(2,3)
    show False unfolding N_def by fastforce
  qed
  have ex: "edit_free_list s N 0 \<bind> (\<lambda>s1. PUT s1 (bp - 4) W \<bind> (\<lambda>s2. FTRP s2 bp \<bind> (\<lambda>f. PUT s2 f W)))
        = Some (s\<lparr>mem := m3, free_listp := h1\<rparr>)"
  proof -
    have 1: "PUT (s\<lparr>mem := m1, free_listp := h1\<rparr>) (bp - 4) W =
        Some (s\<lparr>mem := m1(bp - 4 := W), free_listp := h1\<rparr>)"
      using v4 by (rule put_step)
    have 2: "FTRP (s\<lparr>mem := m1(bp - 4 := W), free_listp := h1\<rparr>) bp = Some (N + blk_size s N - 8)"
      using ftrp_step [OF v4, where m = "m1(bp - 4 := W)" and h = h1] uW7 by (simp add: N_def)
    have 3: "PUT (s\<lparr>mem := m1(bp - 4 := W), free_listp := h1\<rparr>) (N + blk_size s N - 8) W =
        Some (s\<lparr>mem := m3, free_listp := h1\<rparr>)"
      unfolding m3_def using vE by (rule put_step)
    show ?thesis by (simp add: r1(1) 1 2 3)
  qed
  have l3: "lseg m3 h1 0 rest 0"
    unfolding m3_def using r1(2) out nn(2) f(5)
    by (simp add: lseg_upd N_def)
  from insert_step [OF strest(1,2) sprest strest(3) l3 strest(6) bs(1,2,3)]
  obtain m' where m': "edit_free_list (s\<lparr>mem := m3, free_listp := h1\<rparr>) bp 1 = Some (s\<lparr>mem := m', free_listp := bp\<rparr>)"
    "lseg m' bp 0 (bp # rest) 0"
    "\<forall>a. a \<notin> links bp \<longrightarrow> (\<forall>y\<in>set rest. a \<notin> links y) \<longrightarrow> m' a = m3 a"
    by blast
  have res: "coalesce s bp = Some (s\<lparr>mem := m', free_listp := bp\<rparr>, bp)"
    unfolding co using ex m'(1) by (simp add: bind_assoc [symmetric] del: bind_assoc)
  have fr: "m' a = mem s a"
    if "a < bp - 4 \<or> bp + uint (W AND NOT 7) - 4 \<le> a" "a \<notin> links bp" "\<forall>y\<in>set xs. a \<notin> links y" for a
  proof -
    have "m' a = m3 a" using m'(3) that strest(4) by blast
    also have "\<dots> = m1 a" using that(1) uW7 nn(2) f(5) by (auto simp: m3_def N_def)
    also have "\<dots> = mem s a" using r1(3) that(3) by blast
    finally show ?thesis .
  qed
  have h: "m' (bp - 4) = W"
  proof -
    have "m' (bp - 4) = m3 (bp - 4)"
      using m'(3) out [of _ "bp - 4"] nn(2) f(5) by (auto simp: links_def N_def)
    then show ?thesis using nn(2) f(5) by (auto simp: m3_def N_def)
  qed
  have ft: "m' (bp + uint (W AND NOT 7) - 8) = W"
  proof -
    have e: "bp + uint (W AND NOT 7) - 8 = N + blk_size s N - 8"
      using uW7 by (simp add: N_def)
    have "m' (N + blk_size s N - 8) = m3 (N + blk_size s N - 8)"
      using m'(3) out [of _ "N + blk_size s N - 8"] nn(2) f(5) by (auto simp: links_def N_def)
    then show ?thesis unfolding e by (simp add: m3_def)
  qed
  show ?thesis
    unfolding coal_res_def nb W_def [symmetric] rest_def [symmetric]
    using res m'(2) fr h ft by blast
qed


lemma prev_node:
  assumes b: "blk_pre s xs bp" and pf: "prev_free s bp"
  shows "prev_blk s bp \<in> set xs" "mem s (prev_blk s bp - 4) = mem s (bp - 8)"
    "prev_blk s bp + blk_size s (prev_blk s bp) = bp"
proof -
  note f = pre_facts [OF b]
  show "prev_blk s bp \<in> set xs" using f(10) pf by simp
  from pf have "prev_blk s bp \<noteq> bp" by (simp add: prev_free_def)
  with f(9) show h: "mem s (prev_blk s bp - 4) = mem s (bp - 8)" by simp
  show "prev_blk s bp + blk_size s (prev_blk s bp) = bp"
    using prev_blk_facts(3) [where s = s and bp = bp] h
    by (simp add: blk_size_def HDRP_def WSIZE_def)
qed

lemma coalesce_case3:
  assumes p: "coalesce_pre s xs bp" and c: "prev_free s bp" "\<not> next_free s bp"
  shows "\<exists>m'. coal_res s xs bp (prev_blk s bp)
           ((mem s (bp - 4) AND NOT 7) + (mem s (prev_blk s bp - 4) AND NOT 7))
           (remove1 (prev_blk s bp) xs) m'"
proof -
  from p have b: "blk_pre s xs bp"
    by (simp_all add: coalesce_pre_def)
  note f = pre_facts [OF b]
  note st = static_list [OF f(1,3)]
  define P where "P = prev_blk s bp"
  define W where "W = (mem s (bp - 4) AND NOT 7) + (mem s (P - 4) AND NOT 7)"
  define rest where "rest = remove1 P xs"
  from prev_node [OF b c(1)] have P: "P \<in> set xs" and Pe: "P + blk_size s P = bp"
    by (simp_all add: P_def)
  note pn = node_facts [OF f(3) P]
  have "blk_size s bp + blk_size s P < 2 ^ 32"
    using f(1,7) pn(3) Pe by (simp add: region_ok_def)
  then have uW: "uint W = blk_size s bp + blk_size s P"
    by (simp add: W_def uint_add_small blk_size_def HDRP_def WSIZE_def)
  have aW: "al8 W" unfolding W_def by (intro al8_add al8_size)
  then have uW7: "uint (W AND NOT 7) = blk_size s bp + blk_size s P"
    using uW by (simp add: al8_and_m8)
  have vP4: "valid s (P - 4)" and vE: "valid s (bp + blk_size s bp - 8)"
    unfolding valid_iff using f(4,5,6,7) blk_size_al8 [of s bp] pn(1,2,3,4) by presburger+
  have gs: "GET_SIZE s (P - 4) = Some (mem s (P - 4) AND NOT 7)"
    using vP4 by (simp add: GET_SIZE_eq)
  from coalesce_reads [OF p] c
  have co: "coalesce s bp = do {
      s1 \<leftarrow> PUT s (P - 4) W;
      f \<leftarrow> FTRP s1 P;
      s2 \<leftarrow> PUT s1 f W;
      s3 \<leftarrow> edit_free_list s2 P 0;
      s'' \<leftarrow> edit_free_list s3 P 1; Some (s'', P) }"
    unfolding coalesce_def by (auto simp: Let_def P_def [symmetric] gs W_def HDRP_def WSIZE_def)
  have L: "lseg (mem s) (free_listp s) 0 xs 0"
    using f(2) by (simp add: dll_lseg)
  define m2 where "m2 = (mem s)(P - 4 := W, bp + blk_size s bp - 8 := W)"
  have strest: "\<forall>y\<in>set rest. lvalid s y" "\<forall>y\<in>set rest. 0 \<le> y \<and> y < 2 ^ 64" "distinct rest"
    "set rest \<subseteq> set xs" "P \<notin> set rest"
    using st unfolding rest_def by (auto dest: notin_set_remove1)
  have sprest: "spaced (P # rest)"
    using st(3) strest(4) P by (auto simp: spaced_Cons spaced_def)
  \<comment> \<open>cells of the block \<open>bp\<close> are not link cells of any node\<close>
  have out: "a \<notin> links y" if "y \<in> set xs" "bp - 4 \<le> a" "a < bp + blk_size s bp - 4" for a y
  proof
    assume "a \<in> links y"
    from links_in_node [OF f(3) that(1) this] f(8) that show False by fastforce
  qed
  have tag: "P - 4 \<notin> links y" if "y \<in> set xs" for y
    using links_not_tags [OF f(3) that P] by blast
  have ex: "PUT s (P - 4) W \<bind> (\<lambda>s1. FTRP s1 P \<bind> (\<lambda>f. PUT s1 f W))
        = Some (s\<lparr>mem := m2\<rparr>)"
  proof -
    have 1: "PUT s (P - 4) W = Some (s\<lparr>mem := (mem s)(P - 4 := W)\<rparr>)"
      using vP4 by (simp add: PUT_eq)
    have 2: "FTRP (s\<lparr>mem := (mem s)(P - 4 := W)\<rparr>) P = Some (bp + blk_size s bp - 8)"
      using vP4 uW7 Pe by (simp add: FTRP_def GET_SIZE_eq HDRP_def WSIZE_def DSIZE_def)
    have 3: "PUT (s\<lparr>mem := (mem s)(P - 4 := W)\<rparr>) (bp + blk_size s bp - 8) W =
        Some (s\<lparr>mem := m2\<rparr>)"
      unfolding m2_def using vE by (simp add: PUT_eq)
    show ?thesis by (simp add: 1 2 3)
  qed
  have st2: "s\<lparr>mem := m2, free_listp := free_listp s\<rparr> = s\<lparr>mem := m2\<rparr>"
    by simp
  have l2: "lseg m2 (free_listp s) 0 xs 0"
    unfolding m2_def using L out tag f(5)
    by (simp add: lseg_upd)
  from remove_step [OF st l2 P]
  obtain m3 h3 where r3:
    "edit_free_list (s\<lparr>mem := m2\<rparr>) P 0 = Some (s\<lparr>mem := m3, free_listp := h3\<rparr>)"
    "lseg m3 h3 0 rest 0"
    "\<forall>a. (\<forall>y\<in>set xs. y \<noteq> P \<longrightarrow> a \<notin> links y) \<longrightarrow> m3 a = m2 a"
    unfolding rest_def st2 by blast
  have "free_block s P" using f(3) P by (simp add: nodes_ok_def)
  from free_block_range [OF f(1) this] have Pr: "0 < P" "P < 2 ^ 64" by simp_all
  from insert_step [OF strest(1,2) sprest strest(3) r3(2) strest(5) pn(7) Pr]
  obtain m' where m': "edit_free_list (s\<lparr>mem := m3, free_listp := h3\<rparr>) P 1 = Some (s\<lparr>mem := m', free_listp := P\<rparr>)"
    "lseg m' P 0 (P # rest) 0"
    "\<forall>a. a \<notin> links P \<longrightarrow> (\<forall>y\<in>set rest. a \<notin> links y) \<longrightarrow> m' a = m3 a"
    by blast
  have res: "coalesce s bp = Some (s\<lparr>mem := m', free_listp := P\<rparr>, P)"
    unfolding co using ex r3(1) m'(1) by (simp add: bind_assoc [symmetric] del: bind_assoc)
  have fr: "m' a = mem s a"
    if "a < P - 4 \<or> P + uint (W AND NOT 7) - 4 \<le> a" "a \<notin> links P" "\<forall>y\<in>set xs. a \<notin> links y" for a
  proof -
    have "m' a = m3 a" using m'(3) that strest(4) by blast
    also have "\<dots> = m2 a" using r3(3) that(3) by blast
    also have "\<dots> = mem s a" using that(1) uW7 pn(2) f(5) Pe by (auto simp: m2_def)
    finally show ?thesis .
  qed
  have nl: "c \<notin> links P \<and> (\<forall>y\<in>set xs. y \<noteq> P \<longrightarrow> c \<notin> links y)"
    if "c = P - 4 \<or> c = bp + blk_size s bp - 8" for c
  proof (intro conjI ballI impI)
    show "c \<notin> links P" using that pn(2) f(5) Pe by (auto simp: links_def)
    fix y assume y: "y \<in> set xs" "y \<noteq> P"
    show "c \<notin> links y"
      using that tag [OF y(1)] out [OF y(1), of "bp + blk_size s bp - 8"] f(5) by auto
  qed
  have v: "m' c = m2 c" if "c = P - 4 \<or> c = bp + blk_size s bp - 8" for c
  proof -
    have "\<forall>y\<in>set rest. c \<notin> links y" using nl [OF that] strest(4,5) by auto
    then have "m' c = m3 c" using m'(3) nl [OF that] by simp
    also have "\<dots> = m2 c" using r3(3) nl [OF that] by blast
    finally show ?thesis .
  qed
  have h: "m' (P - 4) = W"
    using v [of "P - 4"] pn(2) f(5) Pe by (auto simp: m2_def)
  have ft: "m' (P + uint (W AND NOT 7) - 8) = W"
  proof -
    have e: "P + uint (W AND NOT 7) - 8 = bp + blk_size s bp - 8"
      using uW7 Pe by simp
    show ?thesis unfolding e using v [of "bp + blk_size s bp - 8"] by (simp add: m2_def)
  qed
  show ?thesis
    unfolding coal_res_def P_def [symmetric] W_def [symmetric] rest_def [symmetric]
    using res m'(2) fr h ft by blast
qed

lemma coalesce_case4:
  assumes p: "coalesce_pre s xs bp" and c: "prev_free s bp" "next_free s bp"
  shows "\<exists>m'. coal_res s xs bp (prev_blk s bp)
           ((mem s (bp - 4) AND NOT 7) +
              ((mem s (prev_blk s bp - 4) AND NOT 7) + (mem s (next_blk s bp - 4) AND NOT 7)))
           (remove1 (prev_blk s bp) (remove1 (next_blk s bp) xs)) m'"
proof -
  from p have b: "blk_pre s xs bp"
    by (simp_all add: coalesce_pre_def)
  note f = pre_facts [OF b]
  note st = static_list [OF f(1,3)]
  define P where "P = prev_blk s bp"
  define N where "N = bp + blk_size s bp"
  define W where "W = (mem s (bp - 4) AND NOT 7) + ((mem s (P - 4) AND NOT 7) + (mem s (N - 4) AND NOT 7))"
  define ys where "ys = remove1 N xs"
  define rest where "rest = remove1 P ys"
  have nb: "next_blk s bp = N" by (simp add: next_blk_def N_def)
  from prev_node [OF b c(1)] have P: "P \<in> set xs" and Pe: "P + blk_size s P = bp"
    and Ph: "mem s (P - 4) = mem s (bp - 8)"
    by (simp_all add: P_def)
  from next_node(1) [OF b c(2)] have N: "N \<in> set xs" by (simp add: N_def)
  note pn = node_facts [OF f(3) P]
  note nn = node_facts [OF f(3) N]
  have PN: "P \<noteq> N" using Pe f(5) pn(2) by (auto simp: N_def)
  have Pys: "P \<in> set ys" using P PN by (simp add: ys_def)
  have tot: "blk_size s bp + (blk_size s P + blk_size s N) < 2 ^ 32"
    using f(1) pn(3) nn(4) Pe by (simp add: region_ok_def N_def)
  have "uint ((mem s (P - 4) AND NOT 7) + (mem s (N - 4) AND NOT 7)) = blk_size s P + blk_size s N"
    using tot f(5) by (simp add: uint_add_small blk_size_def HDRP_def WSIZE_def)
  then have uW: "uint W = blk_size s bp + (blk_size s P + blk_size s N)"
    using tot by (simp add: W_def uint_add_small blk_size_def HDRP_def WSIZE_def)
  have aW: "al8 W" unfolding W_def by (intro al8_add al8_size)
  then have uW7: "uint (W AND NOT 7) = blk_size s bp + (blk_size s P + blk_size s N)"
    using uW by (simp add: al8_and_m8)
  have vP4: "valid s (P - 4)" and v8: "valid s (bp - 8)" and vN4: "valid s (N - 4)"
    and vE: "valid s (N + blk_size s N - 8)"
    unfolding valid_iff N_def
    using f(4,5,6,7) blk_size_al8 [of s bp] pn(1,2,3,4) nn(2,4) blk_size_al8 [of s N]
    unfolding N_def by presburger+
  have gs: "GET_SIZE s (P - 4) = Some (mem s (P - 4) AND NOT 7)"
    using vP4 by (simp add: GET_SIZE_eq)
  have fn: "FTRP s N = Some (N + blk_size s N - 8)"
    using vN4 by (simp add: FTRP_def GET_SIZE_eq HDRP_def WSIZE_def DSIZE_def blk_size_def)
  have gn: "GET_SIZE s (N + blk_size s N - 8) = Some (mem s (N - 4) AND NOT 7)"
    using vE nn(5) by (simp add: GET_SIZE_eq)
  from coalesce_reads [OF p] c
  have co: "coalesce s bp = do {
      s1 \<leftarrow> edit_free_list s N 0;
      pb1 \<leftarrow> PREV_BLKP s1 bp;
      s2 \<leftarrow> PUT s1 (pb1 - 4) W;
      pb2 \<leftarrow> PREV_BLKP s2 bp;
      f \<leftarrow> FTRP s2 pb2;
      s3 \<leftarrow> PUT s2 f W;
      pb3 \<leftarrow> PREV_BLKP s3 bp;
      s4 \<leftarrow> edit_free_list s3 pb3 0;
      s'' \<leftarrow> edit_free_list s4 pb3 1; Some (s'', pb3) }"
    unfolding coalesce_def
    by (auto simp: Let_def P_def [symmetric] nb gs fn gn W_def HDRP_def WSIZE_def)
  have L: "lseg (mem s) (free_listp s) 0 xs 0"
    using f(2) by (simp add: dll_lseg)
  from efl_remove [OF L N st]
  obtain m1 h1 where r1: "edit_free_list s N 0 = Some (s\<lparr>mem := m1, free_listp := h1\<rparr>)"
    "lseg m1 h1 0 ys 0"
    "\<forall>a. (\<forall>y\<in>set xs. y \<noteq> N \<longrightarrow> a \<notin> links y) \<longrightarrow> m1 a = mem s a"
    unfolding ys_def by blast
  have stys: "\<forall>y\<in>set ys. lvalid s y" "\<forall>y\<in>set ys. 0 \<le> y \<and> y < 2 ^ 64" "spaced ys" "distinct ys"
    "set ys \<subseteq> set xs" "N \<notin> set ys"
    using st unfolding ys_def by (auto dest: notin_set_remove1 simp: spaced_def)
  have strest: "\<forall>y\<in>set rest. lvalid s y" "\<forall>y\<in>set rest. 0 \<le> y \<and> y < 2 ^ 64" "distinct rest"
    "set rest \<subseteq> set xs" "P \<notin> set rest" "N \<notin> set rest"
    using stys unfolding rest_def by (auto dest: notin_set_remove1)
  have sprest: "spaced (P # rest)"
    using st(3) strest(4) P by (auto simp: spaced_Cons spaced_def)
  \<comment> \<open>cells of the three merged blocks that are no link cells\<close>
  have tag: "P - 4 \<notin> links y" if "y \<in> set xs" for y
    using links_not_tags [OF f(3) that P] by blast
  have ftP: "bp - 8 \<notin> links y" if "y \<in> set xs" for y
  proof
    assume "bp - 8 \<in> links y"
    from links_not_tags [OF f(3) that P this] Pe show False by simp
  qed
  have ftN: "N + blk_size s N - 8 \<notin> links y" if "y \<in> set xs" for y
    using links_not_tags [OF f(3) that N] by blast
  define m3 where "m3 = m1(P - 4 := W, N + blk_size s N - 8 := W)"
  have m18: "m1 (bp - 8) = mem s (bp - 8)"
    using r1(3) ftP by blast
  have pbe: "bp - uint (mem s (bp - 8) AND NOT 7) = P"
    by (simp add: P_def prev_blk_def DSIZE_def)
  have ex: "edit_free_list s N 0 \<bind> (\<lambda>s1. PREV_BLKP s1 bp \<bind> (\<lambda>pb1. PUT s1 (pb1 - 4) W \<bind>
          (\<lambda>s2. PREV_BLKP s2 bp \<bind> (\<lambda>pb2. FTRP s2 pb2 \<bind> (\<lambda>f. PUT s2 f W \<bind>
          (\<lambda>s3. PREV_BLKP s3 bp \<bind> (\<lambda>pb3. Some (s3, pb3))))))))
        = Some (s\<lparr>mem := m3, free_listp := h1\<rparr>, P)"
  proof -
    have 1: "PREV_BLKP (s\<lparr>mem := m1, free_listp := h1\<rparr>) bp = Some P"
      using prevblk_step [OF v8, where m = m1 and h = h1] m18 pbe by simp
    have 2: "PUT (s\<lparr>mem := m1, free_listp := h1\<rparr>) (P - 4) W =
        Some (s\<lparr>mem := m1(P - 4 := W), free_listp := h1\<rparr>)"
      using vP4 by (rule put_step)
    have 3: "PREV_BLKP (s\<lparr>mem := m1(P - 4 := W), free_listp := h1\<rparr>) bp = Some P"
      using prevblk_step [OF v8, where m = "m1(P - 4 := W)" and h = h1] m18 pbe pn(2) Pe by simp
    have 4: "FTRP (s\<lparr>mem := m1(P - 4 := W), free_listp := h1\<rparr>) P = Some (N + blk_size s N - 8)"
      using ftrp_step [OF vP4, where m = "m1(P - 4 := W)" and h = h1] uW7 Pe by (simp add: N_def)
    have 5: "PUT (s\<lparr>mem := m1(P - 4 := W), free_listp := h1\<rparr>) (N + blk_size s N - 8) W =
        Some (s\<lparr>mem := m3, free_listp := h1\<rparr>)"
      unfolding m3_def using vE by (rule put_step)
    have 6: "PREV_BLKP (s\<lparr>mem := m3, free_listp := h1\<rparr>) bp = Some P"
      using prevblk_step [OF v8, where m = m3 and h = h1] m18 pbe pn(2) nn(2) f(5) Pe
      by (simp add: m3_def N_def)
    show ?thesis by (simp add: r1(1) 1 2 3 4 5 6)
  qed
  have l3: "lseg m3 h1 0 ys 0"
    unfolding m3_def using r1(2) tag ftN stys(5)
    by (simp add: lseg_upd subset_iff)
  from remove_step [OF stys(1,2,3,4) l3 Pys]
  obtain m4 h4 where r4:
    "edit_free_list (s\<lparr>mem := m3, free_listp := h1\<rparr>) P 0 = Some (s\<lparr>mem := m4, free_listp := h4\<rparr>)"
    "lseg m4 h4 0 rest 0"
    "\<forall>a. (\<forall>y\<in>set ys. y \<noteq> P \<longrightarrow> a \<notin> links y) \<longrightarrow> m4 a = m3 a"
    unfolding rest_def by blast
  have "free_block s P" using f(3) P by (simp add: nodes_ok_def)
  from free_block_range [OF f(1) this] have Pr: "0 < P" "P < 2 ^ 64" by simp_all
  from insert_step [OF strest(1,2) sprest strest(3) r4(2) strest(5) pn(7) Pr]
  obtain m' where m': "edit_free_list (s\<lparr>mem := m4, free_listp := h4\<rparr>) P 1 = Some (s\<lparr>mem := m', free_listp := P\<rparr>)"
    "lseg m' P 0 (P # rest) 0"
    "\<forall>a. a \<notin> links P \<longrightarrow> (\<forall>y\<in>set rest. a \<notin> links y) \<longrightarrow> m' a = m4 a"
    by blast
  have res: "coalesce s bp = Some (s\<lparr>mem := m', free_listp := P\<rparr>, P)"
  proof -
    have "coalesce s bp = do {
        (s3, pb3) \<leftarrow> Some (s\<lparr>mem := m3, free_listp := h1\<rparr>, P);
        s4 \<leftarrow> edit_free_list s3 pb3 0;
        s'' \<leftarrow> edit_free_list s4 pb3 1; Some (s'', pb3) }"
      unfolding co ex [symmetric] by simp
    then show ?thesis using r4(1) m'(1) by simp
  qed
  have fr: "m' a = mem s a"
    if "a < P - 4 \<or> P + uint (W AND NOT 7) - 4 \<le> a" "a \<notin> links P" "\<forall>y\<in>set xs. a \<notin> links y" for a
  proof -
    have "m' a = m4 a" using m'(3) that strest(4) by blast
    also have "\<dots> = m3 a" using r4(3) that(3) stys(5) by blast
    also have "\<dots> = m1 a" using that(1) uW7 pn(2) nn(2) f(5) Pe by (auto simp: m3_def N_def)
    also have "\<dots> = mem s a" using r1(3) that(3) by blast
    finally show ?thesis .
  qed
  have nl: "c \<notin> links P \<and> (\<forall>y\<in>set xs. y \<noteq> P \<longrightarrow> c \<notin> links y)"
    if "c = P - 4 \<or> c = N + blk_size s N - 8" for c
  proof (intro conjI ballI impI)
    show "c \<notin> links P" using that pn(2) nn(2) f(5) Pe by (auto simp: links_def N_def)
    fix y assume y: "y \<in> set xs" "y \<noteq> P"
    show "c \<notin> links y"
      using that tag [OF y(1)] ftN [OF y(1)] by auto
  qed
  have v: "m' c = m3 c" if "c = P - 4 \<or> c = N + blk_size s N - 8" for c
  proof -
    have "\<forall>y\<in>set rest. c \<notin> links y" using nl [OF that] strest(4,5) by auto
    then have "m' c = m4 c" using m'(3) nl [OF that] by simp
    moreover have "\<forall>y\<in>set ys. y \<noteq> P \<longrightarrow> c \<notin> links y" using nl [OF that] stys(5) by auto
    then have "m4 c = m3 c" using r4(3) by simp
    ultimately show ?thesis by simp
  qed
  have h: "m' (P - 4) = W"
    using v [of "P - 4"] pn(2) nn(2) f(5) Pe by (auto simp: m3_def N_def)
  have ft: "m' (P + uint (W AND NOT 7) - 8) = W"
  proof -
    have e: "P + uint (W AND NOT 7) - 8 = N + blk_size s N - 8"
      using uW7 Pe by (simp add: N_def)
    show ?thesis unfolding e using v [of "N + blk_size s N - 8"] by (simp add: m3_def)
  qed
  show ?thesis
    unfolding coal_res_def P_def [symmetric] nb W_def [symmetric] ys_def [symmetric] rest_def [symmetric]
    using res m'(2) fr h ft by blast
qed

lemma coalesce_main:
  assumes p: "coalesce_pre s xs bp"
  defines "r \<equiv> merged_start s bp" and "T \<equiv> merged_size s bp" and "rest \<equiv> survivors s bp xs"
  shows "\<exists>m'. coalesce s bp = Some (s\<lparr>mem := m', free_listp := r\<rparr>, r) \<and>
           dll (s\<lparr>mem := m', free_listp := r\<rparr>) r 0 (r # rest) \<and>
           nodes_ok (s\<lparr>mem := m', free_listp := r\<rparr>) rest \<and>
           blk_size (s\<lparr>mem := m', free_listp := r\<rparr>) r = T \<and>
           is_free (s\<lparr>mem := m', free_listp := r\<rparr>) r \<and>
           (\<forall>x\<in>set rest. apart (s\<lparr>mem := m', free_listp := r\<rparr>) r x) \<and>
           (24 \<le> T \<longrightarrow> free_list_ok (s\<lparr>mem := m', free_listp := r\<rparr>) (r # rest)) \<and>
           (\<forall>x\<in>set rest. blk_size (s\<lparr>mem := m', free_listp := r\<rparr>) x = blk_size s x) \<and>
           (\<forall>a. (a < r - 4 \<or> r + T - 4 \<le> a) \<and> a \<notin> links r \<and> (\<forall>y\<in>set xs. a \<notin> links y)
                \<longrightarrow> m' a = mem s a) \<and>
           r mod 8 = 0 \<and> mem_start_brk s \<le> r - 4 \<and> r + T \<le> mem_brk s \<and> 16 \<le> T \<and> r \<le> bp \<and>
           bp + blk_size s bp \<le> r + T"
proof -
  from p have b: "blk_pre s xs bp" and fr: "mem s (bp - 4) AND 1 = 0"
    by (simp_all add: coalesce_pre_def is_free_def HDRP_def WSIZE_def)
  note f = pre_facts [OF b]
  note st = static_list [OF f(1,3)]
  have fin: ?thesis
    if c: "coal_res s xs bp r w rest m'" and w: "w AND 1 = 0" "uint (w AND NOT 7) = T"
      and rr: "r mod 8 = 0 \<and> mem_start_brk s \<le> r - 4 \<and> r + T \<le> mem_brk s \<and> 16 \<le> T \<and> r \<le> bp \<and>
          bp + blk_size s bp \<le> r + T"
      and ap: "\<forall>x\<in>set rest. (x + blk_size s x \<le> r \<or> r + T \<le> x) \<and> x \<noteq> r + 16"
    for w m'
  proof -
    let ?s' = "s\<lparr>mem := m', free_listp := r\<rparr>"
    have sub: "set rest \<subseteq> set xs" "distinct rest"
      using st(4) by (auto simp: rest_def survivors_def)
    from c have c': "coalesce s bp = Some (?s', r)" "lseg (mem ?s') r 0 (r # rest) 0"
      "\<forall>a. (a < r - 4 \<or> r + T - 4 \<le> a) \<and> a \<notin> links r \<and> (\<forall>y\<in>set xs. a \<notin> links y) \<longrightarrow> mem ?s' a = mem s a"
      "mem ?s' (r - 4) = w" "24 \<le> T \<longrightarrow> mem ?s' (r + T - 8) = w"
      unfolding coal_res_def w(2) by simp_all
    from rr have r1: "r mod 8 = 0" and r2: "mem_start_brk s \<le> r - 4" and r3: "r + T \<le> mem_brk s"
      and r4: "16 \<le> T" by simp_all
    have "mem_start_brk ?s' = mem_start_brk s" "mem_brk ?s' = mem_brk s" "free_listp ?s' = r"
      by simp_all
    from assemble [OF f(1,3) sub this(1,2) c'(2) this(3) c'(3) c'(4) w r4 c'(5) r1 r2 r3 ap]
    have a: "dll ?s' r 0 (r # rest) \<and> nodes_ok ?s' rest \<and> blk_size ?s' r = T \<and> is_free ?s' r \<and>
           (\<forall>x\<in>set rest. apart ?s' r x) \<and> (24 \<le> T \<longrightarrow> free_list_ok ?s' (r # rest)) \<and>
           (\<forall>x\<in>set rest. blk_size ?s' x = blk_size s x)" .
    have fr': "\<forall>a. (a < r - 4 \<or> r + T - 4 \<le> a) \<and> a \<notin> links r \<and> (\<forall>y\<in>set xs. a \<notin> links y) \<longrightarrow> m' a = mem s a"
      using c'(3) by simp
    show ?thesis
      apply (rule exI [of _ m'])
      apply (intro conjI)
      using c'(1) a fr' rr by simp_all
  qed
  show ?thesis
  proof (cases "prev_free s bp")
    case pf: False
    show ?thesis
    proof (cases "next_free s bp")
      case nf: False
      have e: "r = bp" "T = blk_size s bp" "rest = xs"
        using pf nf by (simp_all add: r_def T_def rest_def merged_start_def merged_size_def survivors_def)
      have "x \<noteq> bp + 16" if x: "x \<in> set xs" for x
      proof
        assume xe: "x = bp + 16"
        from f(8) x xe node_facts(2) [OF f(3) x] f(5) have "blk_size s bp = 16" by auto
        with xe have "x = next_blk s bp" by (simp add: next_blk_def)
        moreover have "is_free s x" using f(3) x by (simp add: nodes_ok_def free_block_def)
        ultimately show False using nf by (simp add: next_free_def)
      qed
      then have ap: "\<forall>x\<in>set xs. (x + blk_size s x \<le> bp \<or> bp + blk_size s bp \<le> x) \<and> x \<noteq> bp + 16"
        using f(8) by blast
      from coalesce_case1 [OF p pf nf] obtain m' where cr: "coal_res s xs bp bp (mem s (bp - 4)) xs m'"
        by blast
      have w2: "uint (mem s (bp - 4) AND NOT 7) = blk_size s bp"
        by (simp add: blk_size_def HDRP_def WSIZE_def)
      have g: "bp mod 8 = 0 \<and> mem_start_brk s \<le> bp - 4 \<and> bp + blk_size s bp \<le> mem_brk s \<and>
          16 \<le> blk_size s bp \<and> bp \<le> bp \<and> bp + blk_size s bp \<le> bp + blk_size s bp"
        using f(4,5,6,7) by simp
      show ?thesis
      proof (rule fin)
        show "coal_res s xs bp r (mem s (bp - 4)) rest m'" using cr by (simp add: e)
        show "(mem s (bp - 4)) AND 1 = 0" by (rule fr)
        show "uint ((mem s (bp - 4)) AND NOT 7) = T" using w2 by (simp add: e)
        show "r mod 8 = 0 \<and> mem_start_brk s \<le> r - 4 \<and> r + T \<le> mem_brk s \<and> 16 \<le> T \<and> r \<le> bp \<and>
            bp + blk_size s bp \<le> r + T"
          using g by (simp add: e)
        show "\<forall>x\<in>set rest. (x + blk_size s x \<le> r \<or> r + T \<le> x) \<and> x \<noteq> r + 16"
          using ap by (simp add: e)
      qed
    next
      case nf: True
      define N where "N = bp + blk_size s bp"
      note n = next_node [OF b nf, folded N_def]
      note nn = node_facts [OF f(3) n(1)]
      have e: "r = bp" "T = blk_size s bp + blk_size s N" "rest = remove1 N xs"
        using pf nf st(4)
        by (simp_all add: r_def T_def rest_def merged_start_def merged_size_def survivors_def
            next_blk_def N_def remove1_filter)
      let ?w = "(mem s (bp - 4) AND NOT 7) + (mem s (N - 4) AND NOT 7)"
      have w: "al8 ?w" by (intro al8_add al8_size)
      have ap: "\<forall>x\<in>set (remove1 N xs).
          (x + blk_size s x \<le> bp \<or> bp + (blk_size s bp + blk_size s N) \<le> x) \<and> x \<noteq> bp + 16"
      proof
        fix x assume x: "x \<in> set (remove1 N xs)"
        from x st(4) have xx: "x \<in> set xs" "x \<noteq> N" by (auto dest: notin_set_remove1)
        from f(8) xx(1) node_apart [OF f(3) xx(1) n(1) xx(2)] node_facts(2) [OF f(3) xx(1)] nn(2) f(5)
        show "(x + blk_size s x \<le> bp \<or> bp + (blk_size s bp + blk_size s N) \<le> x) \<and> x \<noteq> bp + 16"
          unfolding N_def by auto
      qed
      from coalesce_case2 [OF p pf nf] obtain m' where "coal_res s xs bp bp ?w (remove1 N xs) m'"
        by (auto simp: next_blk_def N_def)
      then have cr: "coal_res s xs bp bp ?w (remove1 N xs) m'" .
      have w2: "uint (?w AND NOT 7) = blk_size s bp + blk_size s N"
        using n(2) w by (simp add: al8_and_m8)
      have g: "bp mod 8 = 0 \<and> mem_start_brk s \<le> bp - 4 \<and>
          bp + (blk_size s bp + blk_size s N) \<le> mem_brk s \<and>
          16 \<le> blk_size s bp + blk_size s N \<and> bp \<le> bp \<and>
          bp + blk_size s bp \<le> bp + (blk_size s bp + blk_size s N)"
        using f(4,5,6,7) nn(2,4) by (simp add: N_def)
      show ?thesis
      proof (rule fin)
        show "coal_res s xs bp r (?w) rest m'" using cr by (simp add: e)
        show "(?w) AND 1 = 0" by (rule al8_and_1 [OF w])
        show "uint ((?w) AND NOT 7) = T" using w2 by (simp add: e)
        show "r mod 8 = 0 \<and> mem_start_brk s \<le> r - 4 \<and> r + T \<le> mem_brk s \<and> 16 \<le> T \<and> r \<le> bp \<and>
            bp + blk_size s bp \<le> r + T"
          using g by (simp add: e)
        show "\<forall>x\<in>set rest. (x + blk_size s x \<le> r \<or> r + T \<le> x) \<and> x \<noteq> r + 16"
          using ap by (simp add: e)
      qed
    qed
  next
    case pf: True
    define P where "P = prev_blk s bp"
    note pr = prev_node [OF b pf, folded P_def]
    note pn = node_facts [OF f(3) pr(1)]
    show ?thesis
    proof (cases "next_free s bp")
      case nf: False
      have e: "r = P" "T = blk_size s P + blk_size s bp" "rest = remove1 P xs"
        using pf nf st(4)
        by (simp_all add: r_def T_def rest_def merged_start_def merged_size_def survivors_def
            P_def remove1_filter)
      let ?w = "(mem s (bp - 4) AND NOT 7) + (mem s (P - 4) AND NOT 7)"
      have w: "al8 ?w" by (intro al8_add al8_size)
      have "blk_size s bp + blk_size s P < 2 ^ 32"
        using f(1,7) pn(3) pr(3) by (simp add: region_ok_def)
      then have uw: "uint ?w = blk_size s P + blk_size s bp"
        by (simp add: uint_add_small blk_size_def HDRP_def WSIZE_def)
      have ap: "\<forall>x\<in>set (remove1 P xs).
          (x + blk_size s x \<le> P \<or> P + (blk_size s P + blk_size s bp) \<le> x) \<and> x \<noteq> P + 16"
      proof
        fix x assume x: "x \<in> set (remove1 P xs)"
        from x st(4) have xx: "x \<in> set xs" "x \<noteq> P" by (auto dest: notin_set_remove1)
        from f(8) xx(1) node_apart [OF f(3) xx(1) pr(1) xx(2)] node_facts(2) [OF f(3) xx(1)] pn(2) f(5) pr(3)
        show "(x + blk_size s x \<le> P \<or> P + (blk_size s P + blk_size s bp) \<le> x) \<and> x \<noteq> P + 16"
          by auto
      qed
      from coalesce_case3 [OF p pf nf] obtain m' where "coal_res s xs bp P ?w (remove1 P xs) m'"
        by (auto simp: P_def)
      then have cr: "coal_res s xs bp P ?w (remove1 P xs) m'" .
      have w2: "uint (?w AND NOT 7) = blk_size s P + blk_size s bp"
        using uw w by (simp add: al8_and_m8)
      have g: "P mod 8 = 0 \<and> mem_start_brk s \<le> P - 4 \<and>
          P + (blk_size s P + blk_size s bp) \<le> mem_brk s \<and>
          16 \<le> blk_size s P + blk_size s bp \<and> P \<le> bp \<and>
          bp + blk_size s bp \<le> P + (blk_size s P + blk_size s bp)"
        using f(5,7) pn(1,2,3) pr(3) by simp
      show ?thesis
      proof (rule fin)
        show "coal_res s xs bp r (?w) rest m'" using cr by (simp add: e)
        show "(?w) AND 1 = 0" by (rule al8_and_1 [OF w])
        show "uint ((?w) AND NOT 7) = T" using w2 by (simp add: e)
        show "r mod 8 = 0 \<and> mem_start_brk s \<le> r - 4 \<and> r + T \<le> mem_brk s \<and> 16 \<le> T \<and> r \<le> bp \<and>
            bp + blk_size s bp \<le> r + T"
          using g by (simp add: e)
        show "\<forall>x\<in>set rest. (x + blk_size s x \<le> r \<or> r + T \<le> x) \<and> x \<noteq> r + 16"
          using ap by (simp add: e)
      qed
    next
      case nf: True
      define N where "N = bp + blk_size s bp"
      note n = next_node [OF b nf, folded N_def]
      note nn = node_facts [OF f(3) n(1)]
      have PN: "P \<noteq> N" using pr(3) f(5) pn(2) by (auto simp: N_def)
      have "remove1 P (remove1 N xs) = filter (\<lambda>x. x \<noteq> P \<and> x \<noteq> N) xs"
        using st(4) by (simp add: remove1_filter conj_commute)
      then have e: "r = P" "T = blk_size s P + blk_size s bp + blk_size s N"
        "rest = remove1 P (remove1 N xs)"
        using pf nf
        by (simp_all add: r_def T_def rest_def merged_start_def merged_size_def survivors_def
            P_def next_blk_def N_def)
      let ?w = "(mem s (bp - 4) AND NOT 7) + ((mem s (P - 4) AND NOT 7) + (mem s (N - 4) AND NOT 7))"
      have w: "al8 ?w" by (intro al8_add al8_size)
      have tot: "blk_size s bp + (blk_size s P + blk_size s N) < 2 ^ 32"
        using f(1) pn(3) nn(4) pr(3) by (simp add: region_ok_def N_def)
      have "uint ((mem s (P - 4) AND NOT 7) + (mem s (N - 4) AND NOT 7)) = blk_size s P + blk_size s N"
        using tot f(5) by (simp add: uint_add_small blk_size_def HDRP_def WSIZE_def)
      then have uw: "uint ?w = blk_size s P + blk_size s bp + blk_size s N"
        using tot by (simp add: uint_add_small blk_size_def HDRP_def WSIZE_def)
      have ap: "\<forall>x\<in>set (remove1 P (remove1 N xs)).
          (x + blk_size s x \<le> P \<or> P + (blk_size s P + blk_size s bp + blk_size s N) \<le> x) \<and>
          x \<noteq> P + 16"
      proof
        fix x assume x: "x \<in> set (remove1 P (remove1 N xs))"
        from x st(4) have xx: "x \<in> set xs" "x \<noteq> P" "x \<noteq> N"
          by (auto dest: notin_set_remove1 simp: distinct_remove1)
        from f(8) xx(1) node_apart [OF f(3) xx(1) pr(1) xx(2)] node_apart [OF f(3) xx(1) n(1) xx(3)]
          node_facts(2) [OF f(3) xx(1)] pn(2) nn(2) f(5) pr(3)
        show "(x + blk_size s x \<le> P \<or> P + (blk_size s P + blk_size s bp + blk_size s N) \<le> x) \<and>
          x \<noteq> P + 16"
          unfolding N_def by auto
      qed
      from coalesce_case4 [OF p pf nf]
      obtain m' where "coal_res s xs bp P ?w (remove1 P (remove1 N xs)) m'"
        by (auto simp: P_def next_blk_def N_def)
      then have cr: "coal_res s xs bp P ?w (remove1 P (remove1 N xs)) m'" .
      have w2: "uint (?w AND NOT 7) = blk_size s P + blk_size s bp + blk_size s N"
        using uw w by (simp add: al8_and_m8)
      have g: "P mod 8 = 0 \<and> mem_start_brk s \<le> P - 4 \<and>
          P + (blk_size s P + blk_size s bp + blk_size s N) \<le> mem_brk s \<and>
          16 \<le> blk_size s P + blk_size s bp + blk_size s N \<and> P \<le> bp \<and>
          bp + blk_size s bp \<le> P + (blk_size s P + blk_size s bp + blk_size s N)"
        using f(5) pn(1,2,3) nn(2,4) pr(3) by (simp add: N_def)
      show ?thesis
      proof (rule fin)
        show "coal_res s xs bp r (?w) rest m'" using cr by (simp add: e)
        show "(?w) AND 1 = 0" by (rule al8_and_1 [OF w])
        show "uint ((?w) AND NOT 7) = T" using w2 by (simp add: e)
        show "r mod 8 = 0 \<and> mem_start_brk s \<le> r - 4 \<and> r + T \<le> mem_brk s \<and> 16 \<le> T \<and> r \<le> bp \<and>
            bp + blk_size s bp \<le> r + T"
          using g by (simp add: e)
        show "\<forall>x\<in>set rest. (x + blk_size s x \<le> r \<or> r + T \<le> x) \<and> x \<noteq> r + 16"
          using ap by (simp add: e)
      qed
    qed
  qed
qed

lemma blk_size_nonneg: "0 \<le> blk_size s x"
  by (simp add: blk_size_def)

lemma merged_end:
  assumes b: "blk_pre s xs bp"
  shows "merged_start s bp + merged_size s bp =
         bp + blk_size s bp + (if next_free s bp then blk_size s (next_blk s bp) else 0)"
  using prev_node(3) [OF b] by (simp add: merged_start_def merged_size_def)

text \<open>
  Coalescing on a consistent heap. \<open>coalesce\<close> is called on a block \<open>bp\<close> that is marked free in header and
  footer, in a heap whose free list \<open>xs\<close> is consistent (\<open>coalesce_pre\<close>). Then the
  call returns; the block it returns starts at the free predecessor if there is one and at
  \<open>bp\<close> otherwise, is marked free, and its size is the sum of the sizes of \<open>bp\<close> and
  its free neighbours; it is the head of the free list, followed by the nodes of the old
  list that were not absorbed, in their old order; every node of the old list is still in
  the list or lies inside the merged block; when both neighbours are allocated, the block
  is \<open>bp\<close> itself and the rest of the list is the old list. Whenever the merged block
  has at least 24 bytes, the new list is again a consistent free list (in particular the
  footer of the merged block equals its header).
\<close>

lemma coalesce_consolidates:
  assumes "coalesce_pre s xs bp"
  shows "\<exists>s'. coalesce s bp = Some (s', merged_start s bp) \<and>
           free_listp s' = merged_start s bp \<and>
           dll s' (free_listp s') 0 (merged_start s bp # survivors s bp xs) \<and>
           is_free s' (merged_start s bp) \<and>
           blk_size s' (merged_start s bp) = merged_size s bp \<and>
           (24 \<le> merged_size s bp \<longrightarrow> free_list_ok s' (merged_start s bp # survivors s bp xs)) \<and>
           (\<forall>x\<in>set xs. x \<in> set (survivors s bp xs) \<or>
               merged_start s bp \<le> x \<and> x < merged_start s bp + merged_size s bp) \<and>
           (\<not> prev_free s bp \<and> \<not> next_free s bp \<longrightarrow>
               merged_start s bp = bp \<and> survivors s bp xs = xs) \<and>
           mem_brk s' = mem_brk s"
proof -
  from assms have b: "blk_pre s xs bp" by (simp add: coalesce_pre_def)
  note f = pre_facts [OF b]
  from coalesce_main [OF assms] obtain m' where
    m: "coalesce s bp = Some (s\<lparr>mem := m', free_listp := merged_start s bp\<rparr>, merged_start s bp)"
      "dll (s\<lparr>mem := m', free_listp := merged_start s bp\<rparr>) (merged_start s bp) 0
         (merged_start s bp # survivors s bp xs)"
      "blk_size (s\<lparr>mem := m', free_listp := merged_start s bp\<rparr>) (merged_start s bp) = merged_size s bp"
      "is_free (s\<lparr>mem := m', free_listp := merged_start s bp\<rparr>) (merged_start s bp)"
      "24 \<le> merged_size s bp \<longrightarrow>
         free_list_ok (s\<lparr>mem := m', free_listp := merged_start s bp\<rparr>) (merged_start s bp # survivors s bp xs)"
    by blast
  have ab: "x \<in> set (survivors s bp xs) \<or>
      merged_start s bp \<le> x \<and> x < merged_start s bp + merged_size s bp" if x: "x \<in> set xs" for x
  proof (cases "x \<in> set (survivors s bp xs)")
    case True
    then show ?thesis by simp
  next
    case False
    with x consider "prev_free s bp" "x = prev_blk s bp" | "next_free s bp" "x = next_blk s bp"
      by (auto simp: survivors_def)
    then show ?thesis
    proof cases
      case 1
      with prev_node [OF b 1(1)] f(5) node_facts(2) [OF f(3) x]
        blk_size_nonneg [of s "next_blk s bp"] show ?thesis
        unfolding merged_start_def merged_size_def by auto
    next
      case 2
      with merged_end [OF b] node_facts(2) [OF f(3) x] f(5) prev_blk_facts(1) [where s = s and bp = bp]
      show ?thesis
        unfolding merged_start_def next_blk_def by auto
    qed
  qed
  have c1: "merged_start s bp = bp \<and> survivors s bp xs = xs"
    if "\<not> prev_free s bp \<and> \<not> next_free s bp"
    using that by (simp add: merged_start_def survivors_def)
  show ?thesis
    apply (rule exI [of _ "s\<lparr>mem := m', free_listp := merged_start s bp\<rparr>"])
    apply (intro conjI)
    using m ab c1 by simp_all
qed

text \<open>The hypothesis holds on the example heap, whose block at 4224 has a free block
  on either side: the three blocks become one free block of 65536 bytes at 4112, the only
  node of the free list.\<close>

lemma coalesce_consolidates_example:
  "coalesce_pre coalesce_example [4432, 4112] 4224 \<and>
   prev_free coalesce_example 4224 \<and> next_free coalesce_example 4224 \<and>
   merged_start coalesce_example 4224 = 4112 \<and> merged_size coalesce_example 4224 = 65536 \<and>
   survivors coalesce_example 4224 [4432, 4112] = [] \<and>
   (\<exists>s'. coalesce coalesce_example 4224 = Some (s', 4112) \<and> free_listp s' = 4112 \<and>
         dll s' (free_listp s') 0 [4112] \<and> is_free s' 4112 \<and> blk_size s' 4112 = 65536 \<and>
         free_list_ok s' [4112] \<and> mem_brk s' = mem_brk coalesce_example)"
proof -
  have p: "coalesce_pre coalesce_example [4432, 4112] 4224"
    by code_simp
  have e: "prev_free coalesce_example 4224" "next_free coalesce_example 4224"
    "merged_start coalesce_example 4224 = 4112" "merged_size coalesce_example 4224 = 65536"
    "survivors coalesce_example 4224 [4432, 4112] = []"
    by code_simp+
  from coalesce_consolidates [OF p] show ?thesis
    unfolding e using p e by auto
qed

section \<open>Growing the region\<close>

lemma uint_ucast_mod8: "uint (ucast (v :: 64 word) :: 32 word) mod 8 = uint v mod 8"
proof -
  have "uint (ucast v :: 32 word) = uint v mod 2 ^ 32"
    by (simp add: unsigned_ucast_eq take_bit_eq_mod)
  moreover have "uint v mod 2 ^ 32 mod 8 = uint v mod 8"
    by (rule mod_mod_cancel) simp
  ultimately show ?thesis by simp
qed

lemma uint_times4_mod8: "uint (a * 4 :: 64 word) mod 8 = uint a * 4 mod 8"
proof -
  have "uint (a * 4) = uint a * 4 mod 2 ^ 64"
    by (simp add: uint_word_ariths)
  moreover have "uint a * 4 mod 2 ^ 64 mod 8 = uint a * 4 mod 8"
    by (rule mod_mod_cancel) simp
  ultimately show ?thesis by simp
qed

lemma uint_succ_mod2: "uint (a + 1 :: 64 word) mod 2 = (uint a + 1) mod 2"
proof -
  have "uint (a + 1) = (uint a + 1) mod 2 ^ 64"
    by (simp add: uint_word_ariths)
  moreover have "(uint a + 1) mod 2 ^ 64 mod 2 = (uint a + 1) mod 2"
    by (rule mod_mod_cancel) simp
  ultimately show ?thesis by simp
qed

lemma grow_size_facts: "uint (grow_size words) mod 8 = 0 \<and> 24 \<le> uint (grow_size words)"
proof -
  define v where "v = (if words mod 2 \<noteq> 0 then (words + 1) * 4 else words * 4)"
  have u: "uint (words mod 2) = uint words mod 2"
    by (simp add: uint_mod_distrib)
  have "uint v mod 8 = 0"
  proof (cases "words mod 2 = 0")
    case True
    then have "uint words mod 2 = 0"
      using u by simp
    then have e: "uint words mod 2 = 0" .
    from True have "v = words * 4"
      unfolding v_def by (simp only: if_False simp_thms)
    then have "uint v mod 8 = uint words * 4 mod 8"
      by (simp only: uint_times4_mod8)
    with e show ?thesis by presburger
  next
    case False
    then have "uint (words mod 2) \<noteq> 0"
      by (simp add: word_uint_eq_iff)
    then have "uint words mod 2 \<noteq> 0"
      using u by simp
    then have e: "uint (words + 1) mod 2 = 0"
      unfolding uint_succ_mod2 by presburger
    from False have "v = (words + 1) * 4"
      unfolding v_def by (simp only: if_True simp_thms)
    then have "uint v mod 8 = uint (words + 1) * 4 mod 8"
      by (simp only: uint_times4_mod8)
    with e show ?thesis by presburger
  qed
  then have a: "uint (ucast v :: 32 word) mod 8 = 0"
    by (simp add: uint_ucast_mod8)
  have g: "grow_size words = (if (ucast v :: 32 word) < 24 then 24 else ucast v)"
    by (simp only: grow_size_def Let_def WSIZE_def v_def)
  show ?thesis
  proof (cases "(ucast v :: 32 word) < 24")
    case True
    then have "grow_size words = 24" by (simp only: g if_True)
    then show ?thesis by simp
  next
    case False
    then have "24 \<le> uint (ucast v :: 32 word)"
      by (simp add: word_less_def)
    moreover from False have "grow_size words = ucast v" by (simp only: g if_False)
    ultimately show ?thesis using a by simp
  qed
qed


text \<open>A consistent free list stays consistent when the region grows and memory changes
  only from the old epilogue word on.\<close>

lemma grow_frame:
  assumes ok: "free_list_ok s xs"
    and reg: "mem_start_brk s' = mem_start_brk s" "mem_brk s \<le> mem_brk s'" "free_listp s' = free_listp s"
    and fr: "\<forall>a. a < mem_brk s - 4 \<longrightarrow> mem s' a = mem s a"
  shows "free_list_ok s' xs \<and> (\<forall>x\<in>set xs. blk_size s' x = blk_size s x)"
proof -
  from ok have d: "dll s (free_listp s) 0 xs" and n: "nodes_ok s xs"
    by (simp_all add: free_list_ok_alt)
  have tags: "mem s' (x - 4) = mem s (x - 4) \<and>
      mem s' (x + blk_size s x - 8) = mem s (x + blk_size s x - 8)" if "x \<in> set xs" for x
    using node_facts(2,4) [OF n that] fr by simp
  have b: "blk_size s' x = blk_size s x" if "x \<in> set xs" for x
    using tags [OF that] by (simp add: blk_size_def HDRP_def WSIZE_def)
  have "free_block s' x" if "x \<in> set xs" for x
  proof -
    from n that have "free_block s x" by (simp add: nodes_ok_def)
    then show ?thesis
      using tags [OF that] b [OF that] reg
      by (simp add: free_block_def is_free_def HDRP_def WSIZE_def DSIZE_def)
  qed
  moreover have "apart s' x y" if "x \<in> set xs" "y \<in> set xs" "x \<noteq> y" for x y
    using n that b by (simp add: nodes_ok_def apart_def)
  ultimately have n': "nodes_ok s' xs"
    using n by (simp add: nodes_ok_def)
  have lv: "\<forall>x\<in>set xs. lvalid s' x"
    using n' by (auto simp: nodes_ok_def free_block_lvalid)
  have "\<forall>x\<in>set xs. \<forall>a\<in>links x. mem s' a = mem s a"
  proof (intro ballI)
    fix x a assume "x \<in> set xs" "a \<in> links x"
    from links_in_node [OF n this] node_facts(4) [OF n \<open>x \<in> set xs\<close>] fr
    show "mem s' a = mem s a" by simp
  qed
  then have "lseg (mem s') (free_listp s) 0 xs 0 = lseg (mem s) (free_listp s) 0 xs 0"
    by (rule lseg_cong)
  with d lv have "dll s' (free_listp s') 0 xs"
    by (simp add: dll_lseg reg)
  with n' b show ?thesis
    by (simp add: free_list_ok_alt)
qed

lemma sint_nonneg_uint: "0 \<le> sint (w :: 32 word) \<Longrightarrow> sint w = uint w"
proof -
  assume a: "0 \<le> sint w"
  have "sint w < 2 ^ 32"
    using sint_lt [of w] by simp
  with a have "take_bit 32 (sint w) = sint w"
    by (simp add: take_bit_int_eq_self)
  then show ?thesis
    using uint_sint [of w] by simp
qed


text \<open>The new block that \<open>extend_heap\<close> formats at the old end of the region, before
  it is merged with the block in front of it.\<close>

lemma extend_heap_format:
  fixes s :: mstate and words :: size_t
  defines "sz \<equiv> grow_size words"
  defines "b \<equiv> mem_brk s"
  assumes al: "b mod 8 = 0" and lo: "0 < mem_start_brk s" "mem_start_brk s \<le> b - 8"
    and nn: "0 \<le> sint sz" and mx: "b + sint sz \<le> mem_max_addr s"
  shows "extend_heap s words =
         coalesce (s\<lparr>mem_brk := b + uint sz,
                     mem := (mem s)(b - 4 := sz, b + uint sz - 8 := sz, b + uint sz - 4 := 1)\<rparr>) b"
proof -
  have su: "sint sz = uint sz"
    using nn by (rule sint_nonneg_uint)
  have g: "uint sz mod 8 = 0" "24 \<le> uint sz"
    using grow_size_facts [of words] by (simp_all add: sz_def)
  have a8: "sz AND - 8 = sz"
    using g(1) by (intro al8_and_m8) (simp add: al8_def)
  have b4: "b mod 4 = 0"
    using al by presburger
  have s4: "(b + uint sz) mod 4 = 0"
    using al g(1) by presburger
  define s1 where "s1 = s\<lparr>mem_brk := b + uint sz\<rparr>"
  have sb: "mem_sbrk s (sint sz) = (s1, b)"
    using nn mx by (simp add: mem_sbrk_def s1_def b_def su)
  have m1: "(b - 4) mod 4 = 0" and m2: "(b + uint sz - 8) mod 4 = 0"
    and m3: "(b + uint sz - 4) mod 4 = 0"
    using b4 s4 by presburger+
  have v1: "valid s1 (b - 4)"
    using lo g(2) m1 by (simp add: valid_iff s1_def)
  have v2: "valid s1 (b + uint sz - 8)"
    using lo g(2) m2 by (simp add: valid_iff s1_def)
  have v3: "valid s1 (b + uint sz - 4)"
    using lo g(2) m3 by (simp add: valid_iff s1_def)
  define s2 where "s2 = s1\<lparr>mem := (mem s)(b - 4 := sz)\<rparr>"
  define s3 where "s3 = s1\<lparr>mem := (mem s)(b - 4 := sz, b + uint sz - 8 := sz)\<rparr>"
  define s4 where "s4 = s1\<lparr>mem := (mem s)(b - 4 := sz, b + uint sz - 8 := sz, b + uint sz - 4 := 1)\<rparr>"
  have p1: "PUT s1 (HDRP b) (PACK sz 0) = Some s2"
    using v1 by (simp add: PUT_eq HDRP_def WSIZE_def s2_def s1_def)
  have f: "FTRP s2 b = Some (b + uint sz - 8)"
    using v1 by (simp add: FTRP_def GET_SIZE_eq HDRP_def WSIZE_def DSIZE_def s2_def valid_iff a8)
  have p2: "PUT s2 (b + uint sz - 8) (PACK sz 0) = Some s3"
    using v2 by (simp add: PUT_eq s2_def s3_def valid_iff)
  have ne: "b - 4 \<noteq> b + uint sz - 8"
    using g(2) by simp
  have n: "NEXT_BLKP s3 b = Some (b + uint sz)"
    using v1 ne by (simp add: NEXT_BLKP_def GET_SIZE_eq WSIZE_def s3_def valid_iff a8)
  have p3: "PUT s3 (HDRP (b + uint sz)) (PACK 0 1) = Some s4"
    using v3 by (simp add: PUT_eq HDRP_def WSIZE_def s3_def s4_def valid_iff PACK_def)
  have b1: "b \<noteq> -1"
    using lo by simp
  have "extend_heap s words = coalesce s4 b"
    unfolding extend_heap_def sz_def [symmetric] Let_def sb
    using b1 p1 f p2 n p3 by simp
  then show ?thesis
    by (simp add: s4_def s1_def)
qed


lemma extend_heap_pre:
  fixes s :: mstate and words :: size_t
  defines "sz \<equiv> grow_size words"
  defines "b \<equiv> mem_brk s"
  defines "s4 \<equiv> s\<lparr>mem_brk := b + uint sz,
                    mem := (mem s)(b - 4 := sz, b + uint sz - 8 := sz, b + uint sz - 4 := 1)\<rparr>"
  assumes h: "heap_end_ok s xs" and mx: "b + uint sz \<le> mem_max_addr s"
  shows "coalesce_pre s4 xs b" "blk_size s4 b = uint sz" "\<not> next_free s4 b"
    "prev_free s4 b = prev_free s b" "prev_blk s4 b = prev_blk s b"
    "\<forall>x\<in>set xs. blk_size s4 x = blk_size s x"
proof -
  from h have r: "region_ok s" and ok: "free_list_ok s xs" and al: "b mod 8 = 0"
    and lo: "mem_start_brk s \<le> b - 8"
    and mxa: "mem_max_addr s \<le> 2 ^ 64" "mem_max_addr s - mem_start_brk s < 2 ^ 32"
    and pv: "prev_blk s b = b \<or>
        mem_start_brk s \<le> prev_blk s b - 4 \<and> mem s (prev_blk s b - 4) = mem s (b - 8)"
    and pf: "prev_free s b \<longrightarrow> prev_blk s b \<in> set xs"
    by (simp_all add: heap_end_ok_def b_def DSIZE_def HDRP_def WSIZE_def)
  have g: "uint sz mod 8 = 0" "24 \<le> uint sz"
    using grow_size_facts [of words] by (simp_all add: sz_def)
  have a8: "sz AND - 8 = sz"
    using g(1) by (intro al8_and_m8) (simp add: al8_def)
  have a1: "sz AND 1 = 0"
    using g(1) by (intro al8_and_1) (simp add: al8_def)
  have hd: "mem s4 (b - 4) = sz"
    using g(2) by (simp add: s4_def)
  have ft: "mem s4 (b + uint sz - 8) = sz"
    by (simp add: s4_def)
  have ep: "mem s4 (b + uint sz - 4) = 1"
    by (simp add: s4_def)
  have fr: "\<forall>a. a < mem_brk s - 4 \<longrightarrow> mem s4 a = mem s a"
    using g(2) by (simp add: s4_def b_def)
  have gf: "free_list_ok s4 xs \<and> (\<forall>x\<in>set xs. blk_size s4 x = blk_size s x)"
    using ok _ _ _ fr by (rule grow_frame) (simp_all add: s4_def b_def g(2) [THEN order_trans [rotated]])
  show bs: "blk_size s4 b = uint sz"
    by (simp add: blk_size_def HDRP_def WSIZE_def hd a8)
  show nf: "\<not> next_free s4 b"
    by (simp add: next_free_def next_blk_def bs is_free_def HDRP_def WSIZE_def ep)
  have c8: "mem s4 (b - 8) = mem s (b - 8)"
    using fr by (simp add: b_def)
  show pb: "prev_blk s4 b = prev_blk s b"
    by (simp add: prev_blk_def DSIZE_def c8)
  show pfe: "prev_free s4 b = prev_free s b"
    by (simp add: prev_free_def pb DSIZE_def c8)
  show "\<forall>x\<in>set xs. blk_size s4 x = blk_size s x"
    using gf by simp
  have n: "nodes_ok s xs"
    using ok by (simp add: free_list_ok_alt)
  have ap: "\<forall>x\<in>set xs. apart s4 b x"
  proof
    fix x assume x: "x \<in> set xs"
    with gf have "blk_size s4 x = blk_size s x" by simp
    with node_facts(4) [OF n x] show "apart s4 b x"
      by (simp add: apart_def b_def)
  qed
  have pv4: "prev_blk s4 b = b \<or>
      mem_start_brk s4 \<le> HDRP (prev_blk s4 b) \<and> mem s4 (HDRP (prev_blk s4 b)) = mem s4 (b - DSIZE)"
  proof (cases "prev_blk s b = b")
    case True
    then show ?thesis by (simp add: pb)
  next
    case False
    with prev_blk_facts(1) [where s = s and bp = b] have "prev_blk s b - 4 < mem_brk s - 4"
      by (simp add: b_def)
    with fr have "mem s4 (prev_blk s b - 4) = mem s (prev_blk s b - 4)"
      by blast
    moreover have "mem_start_brk s4 = mem_start_brk s"
      by (simp add: s4_def)
    ultimately show ?thesis
      using False pv c8 by (simp add: pb HDRP_def WSIZE_def DSIZE_def)
  qed
  have reg: "region_ok s4"
    using r mxa mx by (simp add: region_ok_def s4_def)
  have e1: "mem_start_brk s4 = mem_start_brk s" and e2: "mem_brk s4 = b + uint sz"
    by (simp_all add: s4_def)
  have i2: "free_list_ok s4 xs"
    using gf by simp
  have i4: "16 \<le> blk_size s4 b"
    using g(2) by (simp add: bs)
  have i5: "mem_start_brk s4 \<le> b - DSIZE"
    using lo by (simp add: e1 DSIZE_def)
  have i6: "next_blk s4 b \<le> mem_brk s4"
    by (simp add: next_blk_def bs e2)
  have i9: "prev_free s4 b \<longrightarrow> prev_blk s4 b \<in> set xs"
    using pf by (simp add: pfe pb)
  have i10: "next_free s4 b \<longrightarrow> next_blk s4 b \<in> set xs"
    using nf by simp
  have "blk_pre s4 xs b"
    unfolding blk_pre_def
    using reg i2 al i4 i5 i6 ap pv4 i9 i10 by blast
  then show "coalesce_pre s4 xs b"
    by (simp add: coalesce_pre_def is_free_def HDRP_def WSIZE_def DSIZE_def hd a1 next_blk_def bs ft)
qed


lemma extend_heap_main:
  fixes s :: mstate and words :: size_t
  defines "sz \<equiv> grow_size words"
  defines "b \<equiv> mem_brk s"
  defines "r \<equiv> merged_start s b"
  assumes h: "heap_end_ok s xs" and nn: "0 \<le> sint sz" and mx: "b + sint sz \<le> mem_max_addr s"
  shows "\<exists>m'. extend_heap s words = Some (s\<lparr>mem_brk := b + uint sz, mem := m', free_listp := r\<rparr>, r) \<and>
           free_list_ok (s\<lparr>mem_brk := b + uint sz, mem := m', free_listp := r\<rparr>)
             (r # filter (\<lambda>x. x \<noteq> r) xs) \<and>
           r + blk_size (s\<lparr>mem_brk := b + uint sz, mem := m', free_listp := r\<rparr>) r = b + uint sz \<and>
           m' (b + uint sz - 4) = 1 \<and> 0 < r \<and> r \<le> b"
proof -
  define s4 where "s4 = s\<lparr>mem_brk := b + uint sz,
      mem := (mem s)(b - 4 := sz, b + uint sz - 8 := sz, b + uint sz - 4 := 1)\<rparr>"
  have su: "sint sz = uint sz"
    using nn by (rule sint_nonneg_uint)
  from h have reg: "region_ok s" and ok: "free_list_ok s xs" and al: "b mod 8 = 0"
    and lo: "mem_start_brk s \<le> b - 8"
    by (simp_all add: heap_end_ok_def b_def DSIZE_def)
  have n: "nodes_ok s xs"
    using ok by (simp add: free_list_ok_alt)
  have g: "24 \<le> uint sz"
    using grow_size_facts [of words] by (simp add: sz_def)
  have ex: "extend_heap s words = coalesce s4 b"
    unfolding s4_def sz_def b_def
    by (rule extend_heap_format)
      (use al lo reg nn mx in \<open>simp_all add: b_def sz_def region_ok_def\<close>)
  note p = extend_heap_pre [OF h, of words, folded sz_def b_def, folded s4_def, OF mx [unfolded su]]
  from p(1) have bp: "blk_pre s4 xs b"
    by (simp add: coalesce_pre_def)
  have r4: "merged_start s4 b = r"
    by (simp add: merged_start_def r_def p(4,5))
  have T: "r + merged_size s4 b = b + uint sz"
    using merged_end [OF bp] p(2,3) by (simp add: r4)
  have rb: "r \<le> b"
    using prev_blk_facts(1) [where s = s and bp = b] by (simp add: r_def merged_start_def)
  have T24: "24 \<le> merged_size s4 b"
    using T rb g by simp
  have nb: "x \<noteq> b" if "x \<in> set xs" for x
    using node_facts(2,4) [OF n that] by (auto simp: b_def)
  have sv: "survivors s4 b xs = filter (\<lambda>x. x \<noteq> r) xs"
  proof (cases "prev_free s b")
    case True
    then show ?thesis
      by (simp add: survivors_def p(3,4,5) r_def merged_start_def)
  next
    case False
    then have "r = b"
      by (simp add: r_def merged_start_def)
    then have "filter (\<lambda>x. x \<noteq> r) xs = xs"
      using nb by (simp add: filter_id_conv)
    with False show ?thesis
      by (simp add: survivors_def p(3,4))
  qed
  from coalesce_main [OF p(1), unfolded r4 sv] obtain m' where
    c: "coalesce s4 b = Some (s4\<lparr>mem := m', free_listp := r\<rparr>, r)"
    and bs: "blk_size (s4\<lparr>mem := m', free_listp := r\<rparr>) r = merged_size s4 b"
    and fl: "24 \<le> merged_size s4 b \<longrightarrow>
        free_list_ok (s4\<lparr>mem := m', free_listp := r\<rparr>) (r # filter (\<lambda>x. x \<noteq> r) xs)"
    and fr: "\<forall>a. (a < r - 4 \<or> r + merged_size s4 b - 4 \<le> a) \<and> a \<notin> links r \<and>
        (\<forall>y\<in>set xs. a \<notin> links y) \<longrightarrow> m' a = mem s4 a"
    and rl: "mem_start_brk s4 \<le> r - 4"
    by blast
  have st: "s4\<lparr>mem := m', free_listp := r\<rparr> = s\<lparr>mem_brk := b + uint sz, mem := m', free_listp := r\<rparr>"
    by (simp add: s4_def)
  have l1: "b + uint sz - 4 \<notin> links r"
    using T T24 by (auto simp: links_def)
  have l2: "\<forall>y\<in>set xs. b + uint sz - 4 \<notin> links y"
  proof
    fix y assume y: "y \<in> set xs"
    show "b + uint sz - 4 \<notin> links y"
    proof
      assume "b + uint sz - 4 \<in> links y"
      from links_in_node [OF n y this] node_facts(4) [OF n y] g show False
        by (simp add: b_def)
    qed
  qed
  have "r + merged_size s4 b - 4 \<le> b + uint sz - 4"
    using T by simp
  with fr l1 l2 have "m' (b + uint sz - 4) = mem s4 (b + uint sz - 4)"
    by blast
  then have ep: "m' (b + uint sz - 4) = 1"
    by (simp add: s4_def)
  have r0: "0 < r"
    using rl reg by (simp add: s4_def region_ok_def)
  show ?thesis
    apply (rule exI [of _ m'])
    using ex c fl T24 bs T ep r0 rb unfolding st by simp
qed


text \<open>When the memory system refuses the request, \<open>extend_heap\<close> returns null and
  leaves the state as it was.\<close>

lemma extend_heap_refused:
  assumes "sint (grow_size words) < 0 \<or> mem_max_addr s < mem_brk s + sint (grow_size words)"
  shows "extend_heap s words = Some (s, 0)"
  using assms by (auto simp: extend_heap_def mem_sbrk_def Let_def)

text \<open>
  Growing the region of a consistent heap. \<open>extend_heap\<close> asks the memory system for \<open>grow_size words\<close> bytes, which is
  a multiple of 8 and at least 24 whatever \<open>words\<close> is. In a heap whose free list
  \<open>xs\<close> is consistent and whose last block is well formed (\<open>heap_end_ok\<close>), when
  the memory system grants the request, the call returns a block \<open>r\<close> and the region has
  grown by exactly that amount. The block \<open>r\<close> starts at the old end of the region, or
  at the free block that ended there, and ends at the new end of the region; it is
  marked free, its footer equals its header, and it is the head of a free list that is
  again consistent. The word at the new end of the region is the epilogue header: size
  zero, allocated.
\<close>

lemma extend_heap_growth:
  assumes "heap_end_ok s xs" and "0 \<le> sint (grow_size words)"
    and "mem_brk s + sint (grow_size words) \<le> mem_max_addr s"
  shows "\<exists>s' r. extend_heap s words = Some (s', r) \<and> r \<noteq> 0 \<and>
           mem_brk s' = mem_brk s + uint (grow_size words) \<and>
           uint (grow_size words) mod 8 = 0 \<and> 24 \<le> uint (grow_size words) \<and>
           r = merged_start s (mem_brk s) \<and> r \<le> mem_brk s \<and>
           r + blk_size s' r = mem_brk s' \<and> is_free s' r \<and>
           mem s' (mem_brk s' - DSIZE) = mem s' (HDRP r) \<and>
           mem s' (mem_brk s' - WSIZE) = PACK 0 1 \<and>
           free_listp s' = r \<and> free_list_ok s' (r # filter (\<lambda>x. x \<noteq> r) xs)"
proof -
  define r where "r = merged_start s (mem_brk s)"
  define n where "n = mem_brk s + uint (grow_size words)"
  from extend_heap_main [OF assms, folded r_def n_def] obtain m' where
    e: "extend_heap s words = Some (s\<lparr>mem_brk := n, mem := m', free_listp := r\<rparr>, r)"
    and f: "free_list_ok (s\<lparr>mem_brk := n, mem := m', free_listp := r\<rparr>) (r # filter (\<lambda>x. x \<noteq> r) xs)"
    and b: "r + blk_size (s\<lparr>mem_brk := n, mem := m', free_listp := r\<rparr>) r = n"
    and p: "m' (n - 4) = 1" and r: "0 < r" "r \<le> mem_brk s"
    by blast
  define s' where "s' = s\<lparr>mem_brk := n, mem := m', free_listp := r\<rparr>"
  have fb: "free_block s' r"
    using f by (simp add: free_list_ok_def s'_def)
  have b': "r + blk_size s' r = n"
    using b by (simp add: s'_def)
  have "mem s' (r + blk_size s' r - DSIZE) = mem s' (HDRP r)" and fr: "is_free s' r"
    using fb by (simp_all add: free_block_def)
  then have tg: "mem s' (n - DSIZE) = mem s' (HDRP r)"
    by (simp add: b')
  have c: "mem_brk s' = n" "free_listp s' = r" "mem s' (n - WSIZE) = PACK 0 1"
    using p by (simp_all add: s'_def WSIZE_def PACK_def)
  show ?thesis
    apply (rule exI [of _ s'], rule exI [of _ r])
    using e f r b' fr tg c grow_size_facts [of words]
    by (simp add: s'_def [symmetric] r_def [symmetric] n_def [symmetric])
qed

text \<open>The hypotheses hold on the freshly initialised heap, whose one block is free:
  asked for one word, \<open>extend_heap\<close> grows the region by 24 bytes, from 69648 to 69672,
  and the free block at 4112 grows from 65536 to 65560 bytes.\<close>

lemma extend_heap_growth_example:
  "heap_end_ok after_init [4112] \<and> sint (grow_size 1) = 24 \<and>
   mem_brk after_init = 69648 \<and> mem_max_addr after_init = 20975616 \<and>
   merged_start after_init 69648 = 4112 \<and>
   (\<exists>s'. extend_heap after_init 1 = Some (s', 4112) \<and> mem_brk s' = 69672 \<and>
         blk_size s' 4112 = 65560 \<and> is_free s' 4112 \<and>
         mem s' 69664 = mem s' 4108 \<and> mem s' 69668 = 1 \<and>
         free_listp s' = 4112 \<and> free_list_ok s' [4112])"
proof -
  have h: "heap_end_ok after_init [4112]"
    by code_simp
  have e: "sint (grow_size 1) = 24" "uint (grow_size 1) = 24" "mem_brk after_init = 69648"
    "mem_max_addr after_init = 20975616" "merged_start after_init 69648 = 4112"
    by code_simp+
  have "0 \<le> sint (grow_size 1)"
    "mem_brk after_init + sint (grow_size 1) \<le> mem_max_addr after_init"
    by (simp_all add: e)
  from extend_heap_growth [OF h this] show ?thesis
    unfolding e using h e by (auto simp: DSIZE_def WSIZE_def HDRP_def PACK_def)
qed

section \<open>Reuse after release\<close>

lemma ucast_le_64: "(ucast (a :: 32 word) :: 64 word) \<le> ucast (b :: 32 word) \<longleftrightarrow> uint a \<le> uint b"
  by (simp add: word_le_def uint_up_ucast is_up)

lemma ucast_back: "(ucast (ucast (a :: 32 word) :: 64 word) :: 32 word) = a"
  by (simp add: ucast_up_ucast_id is_up)

lemma ucast_pack1: "(ucast (PACK (ucast (a :: 32 word) :: 64 word) 1) :: 32 word) = a OR 1"
  by (simp add: PACK_def unsigned_or_eq ucast_back)

lemma al8_or_1: "al8 a \<Longrightarrow> (a OR 1) AND NOT 7 = a"
proof -
  assume a: "al8 a"
  then have "a AND 1 = 0" by (rule al8_and_1)
  then have "a OR 1 = a + 1"
    by (simp add: disjunctive_add_eq_or)
  moreover have "uint (a + 1) = uint a + 1"
    using a uint_add_small [of a 1] uint_lt2p [of a]
    unfolding al8_def by (simp; presburger)
  ultimately have "uint ((a OR 1) AND NOT 7) = uint a"
    using a unfolding uint_and_not_7 al8_def by (simp; presburger)
  then show ?thesis
    by (simp add: word_uint_eq_iff)
qed

lemma uint_sub_64:
  assumes "uint (a :: 32 word) \<le> uint (c :: 32 word)"
  shows "uint ((ucast c :: 64 word) - ucast a) = uint c - uint a"
proof -
  have "uint (ucast a :: 64 word) \<le> uint (ucast c :: 64 word)"
    using assms by (simp add: uint_up_ucast is_up)
  then have "uint ((ucast c :: 64 word) - ucast a) = uint (ucast c :: 64 word) - uint (ucast a :: 64 word)"
    by (simp add: uint_sub_lem)
  then show ?thesis
    by (simp add: uint_up_ucast is_up)
qed

lemma adjust_uint:
  assumes b: "uint m \<le> 2 ^ 32 - 16"
  shows "uint (adjust m) = (if uint m \<le> 8 then 16 else 8 * ((uint m + 15) div 8))"
proof -
  have e: "adjust m = (if m \<le> 8 then 16 else ucast (8 * ((m + 15) div 8)))"
    by (simp add: adjust_def DSIZE_def OVERHEAD_def add.commute)
  have l: "m \<le> 8 \<longleftrightarrow> uint m \<le> 8"
    by (simp add: word_le_def)
  have a: "uint (m + 15) = uint m + 15"
    using b by (simp add: uint_add_lem [THEN iffD1])
  have d: "uint ((m + 15) div 8) = (uint m + 15) div 8"
    by (simp add: uint_div_distrib a)
  have q: "8 * ((uint m + 15) div 8) \<le> uint m + 15"
    by presburger
  have "uint (8 * ((m + 15) div 8)) = 8 * ((uint m + 15) div 8)"
    using q b uint_mult_lem [of 8 "(m + 15) div 8"] by (simp add: d)
  moreover have "uint (ucast (8 * ((m + 15) div 8)) :: 32 word) = uint (8 * ((m + 15) div 8)) mod 2 ^ 32"
    by (simp add: unsigned_ucast_eq take_bit_eq_mod)
  moreover have "8 * ((uint m + 15) div 8) mod 2 ^ 32 = 8 * ((uint m + 15) div 8)"
    using q b by (intro mod_pos_pos_trivial) (simp_all add: pos_imp_zdiv_nonneg_iff)
  ultimately have "uint (ucast (8 * ((m + 15) div 8)) :: 32 word) = 8 * ((uint m + 15) div 8)"
    by simp
  then show ?thesis
    by (simp add: e l)
qed

lemma adjust_facts:
  assumes "uint m \<le> 2 ^ 32 - 16"
  shows "al8 (adjust m)" "16 \<le> uint (adjust m)"
proof -
  show "al8 (adjust m)"
    unfolding al8_def adjust_uint [OF assms] by simp
  show "16 \<le> uint (adjust m)"
  proof (cases "uint m \<le> 8")
    case True
    then show ?thesis by (simp add: adjust_uint [OF assms])
  next
    case False
    then have "16 \<le> 8 * ((uint m + 15) div 8)" by presburger
    with False show ?thesis by (simp add: adjust_uint [OF assms])
  qed
qed

lemma adjust_mono:
  assumes "m \<le> n" "uint n \<le> 2 ^ 32 - 16"
  shows "uint (adjust m) \<le> uint (adjust n)"
proof -
  from assms have mn: "uint m \<le> uint n"
    by (simp add: word_le_def)
  with assms have m: "uint m \<le> 2 ^ 32 - 16"
    by simp
  show ?thesis
  proof (cases "uint n \<le> 8")
    case True
    with mn show ?thesis
      by (simp add: adjust_uint [OF m] adjust_uint [OF assms(2)])
  next
    case False
    then have "16 \<le> 8 * ((uint n + 15) div 8)" by presburger
    moreover have "8 * ((uint m + 15) div 8) \<le> 8 * ((uint n + 15) div 8)"
      using mn by presburger
    ultimately show ?thesis
      using False by (simp add: adjust_uint [OF m] adjust_uint [OF assms(2)])
  qed
qed


text \<open>\<open>mm_free\<close> marks the block free in header and footer and calls \<open>coalesce\<close>;
  the marks leave the free list and the neighbours as they are.\<close>

lemma free_marks:
  fixes s :: mstate and X :: int
  defines "c \<equiv> mem s (X - 4) AND - 8"
  defines "B \<equiv> blk_size s X"
  defines "s2 \<equiv> s\<lparr>mem := (mem s)(X - 4 := c, X + B - 8 := c)\<rparr>"
  assumes p: "blk_pre s xs X" and h: "heap_listp s \<noteq> 0"
  shows "mm_free s X = map_option fst (coalesce s2 X)"
    "coalesce_pre s2 xs X" "merged_start s2 X = merged_start s X" "blk_size s2 X = B"
proof -
  note f = pre_facts [OF p]
  have B: "B = uint c" "16 \<le> B" "X + B \<le> mem_brk s"
    using f(5,7) by (simp_all add: B_def c_def blk_size_def HDRP_def WSIZE_def)
  have ac: "al8 c"
    unfolding c_def by (rule al8_size [unfolded not7])
  have c8: "c AND - 8 = c" and c1: "c AND 1 = 0"
    using ac by (rule al8_and_m8, rule al8_and_1)
  have B8: "B mod 8 = 0"
    using ac by (simp add: B al8_def)
  have m1: "(X - 4) mod 4 = 0" and m2: "(X + B - 8) mod 4 = 0"
    using f(4) B8 by presburger+
  have v1: "valid s (X - 4)"
    using f(6) B m1 by (simp add: valid_iff)
  have v2: "valid s (X + B - 8)"
    using f(6) B m2 by (simp add: valid_iff)
  have X0: "X \<noteq> 0"
    using f(1,6) by (auto simp: region_ok_def)
  have li: "lazy_init s = Some s"
    using h by (simp add: lazy_init_def)
  define s1 where "s1 = s\<lparr>mem := (mem s)(X - 4 := c)\<rparr>"
  have g: "GET_SIZE s (HDRP X) = Some c"
    using v1 by (simp add: GET_SIZE_eq HDRP_def WSIZE_def c_def)
  have p1: "PUT s (HDRP X) (PACK c 0) = Some s1"
    using v1 by (simp add: PUT_eq HDRP_def WSIZE_def s1_def)
  have ft: "FTRP s1 X = Some (X + B - 8)"
    using v1 by (simp add: FTRP_def GET_SIZE_eq HDRP_def WSIZE_def DSIZE_def s1_def valid_iff c8 B)
  have p2: "PUT s1 (X + B - 8) (PACK c 0) = Some s2"
    using v2 by (simp add: PUT_eq s1_def s2_def valid_iff)
  show "mm_free s X = map_option fst (coalesce s2 X)"
    unfolding mm_free_def
    using g X0 li p1 ft p2 by (cases "coalesce s2 X") (auto simp: split_def)
  have hd: "mem s2 (X - 4) = c" and fo: "mem s2 (X + B - 8) = c"
    by (simp_all add: s2_def)
  have fr: "mem s2 a = mem s a" if "a \<noteq> X - 4" "a \<noteq> X + B - 8" for a
    using that by (simp add: s2_def)
  have e: "mem_start_brk s2 = mem_start_brk s" "mem_brk s2 = mem_brk s" "free_listp s2 = free_listp s"
    by (simp_all add: s2_def)
  show bs: "blk_size s2 X = B"
    by (simp add: blk_size_def HDRP_def WSIZE_def hd c8 B)
  have ap: "x + blk_size s x \<le> X \<or> X + B \<le> x" if "x \<in> set xs" for x
    using f(8) that by (simp add: B_def)
  have tg: "\<forall>x\<in>set xs. mem s2 (x - 4) = mem s (x - 4) \<and>
      mem s2 (x + blk_size s x - 8) = mem s (x + blk_size s x - 8)"
  proof (intro ballI conjI)
    fix x assume x: "x \<in> set xs"
    from ap [OF x] node_facts(2) [OF f(3) x] B(2)
    have "x - 4 \<noteq> X - 4" "x - 4 \<noteq> X + B - 8"
      "x + blk_size s x - 8 \<noteq> X - 4" "x + blk_size s x - 8 \<noteq> X + B - 8"
      by auto
    then show "mem s2 (x - 4) = mem s (x - 4)"
      "mem s2 (x + blk_size s x - 8) = mem s (x + blk_size s x - 8)"
      by (simp_all add: fr)
  qed
  from nodes_ok_frame [OF f(3) e(1,2) tg]
  have n2: "nodes_ok s2 xs" and bx: "\<forall>x\<in>set xs. blk_size s2 x = blk_size s x"
    by simp_all
  have "\<forall>x\<in>set xs. \<forall>a\<in>links x. mem s2 a = mem s a"
  proof (intro ballI)
    fix x a assume x: "x \<in> set xs" and a: "a \<in> links x"
    from links_in_node [OF f(3) x a] ap [OF x] B(2)
    have "a \<noteq> X - 4" "a \<noteq> X + B - 8"
      by auto
    then show "mem s2 a = mem s a"
      by (rule fr)
  qed
  then have "lseg (mem s2) (free_listp s) 0 xs 0 = lseg (mem s) (free_listp s) 0 xs 0"
    by (rule lseg_cong)
  moreover have "\<forall>x\<in>set xs. lvalid s2 x"
    using n2 by (auto simp: nodes_ok_def free_block_lvalid)
  ultimately have i2: "free_list_ok s2 xs"
    using f(2) n2 by (simp add: free_list_ok_alt dll_lseg e)
  have p8: "mem s2 (X - 8) = mem s (X - 8)"
    using B(2) by (intro fr) simp_all
  have pb: "prev_blk s2 X = prev_blk s X"
    by (simp add: prev_blk_def DSIZE_def p8)
  have pf: "prev_free s2 X = prev_free s X"
    by (simp add: prev_free_def pb DSIZE_def p8)
  show "merged_start s2 X = merged_start s X"
    by (simp add: merged_start_def pb pf)
  have nb: "next_blk s2 X = next_blk s X"
    by (simp add: next_blk_def bs B_def)
  have "mem s2 (X + B - 4) = mem s (X + B - 4)"
    using B(2) by (intro fr) simp_all
  then have nf: "next_free s2 X = next_free s X"
    unfolding next_free_def is_free_def HDRP_def WSIZE_def next_blk_def bs B_def [symmetric]
    by simp
  have i1: "region_ok s2"
    using f(1) by (simp add: region_ok_def e)
  have i4: "16 \<le> blk_size s2 X"
    using B(2) by (simp add: bs)
  have i5: "mem_start_brk s2 \<le> X - DSIZE"
    using f(6) by (simp add: e DSIZE_def)
  have i6: "next_blk s2 X \<le> mem_brk s2"
    using B(3) by (simp add: next_blk_def bs e)
  have i7: "\<forall>x\<in>set xs. apart s2 X x"
    using ap bx by (auto simp: apart_def bs)
  have i8: "prev_blk s2 X = X \<or>
      mem_start_brk s2 \<le> HDRP (prev_blk s2 X) \<and> mem s2 (HDRP (prev_blk s2 X)) = mem s2 (X - DSIZE)"
  proof (cases "prev_blk s X = X")
    case True
    then show ?thesis by (simp add: pb)
  next
    case False
    with prev_blk_facts(1) [where s = s and bp = X] B(2)
    have "prev_blk s X - 4 \<noteq> X - 4" "prev_blk s X - 4 \<noteq> X + B - 8"
      by simp_all
    then have "mem s2 (prev_blk s X - 4) = mem s (prev_blk s X - 4)"
      by (rule fr)
    with False f(9) p8 show ?thesis
      by (simp add: pb HDRP_def WSIZE_def DSIZE_def e)
  qed
  have i9: "prev_free s2 X \<longrightarrow> prev_blk s2 X \<in> set xs"
    using f(10) by (simp add: pf pb)
  have i10: "next_free s2 X \<longrightarrow> next_blk s2 X \<in> set xs"
    using f(11) by (simp add: nf next_blk_def bs B_def)
  have "blk_pre s2 xs X"
    unfolding blk_pre_def
    using i1 i2 f(4) i4 i5 i6 i7 i8 i9 i10 by blast
  then show "coalesce_pre s2 xs X"
    by (simp add: coalesce_pre_def is_free_def HDRP_def WSIZE_def DSIZE_def hd c1 next_blk_def bs fo)
qed

lemma find_fit_loop_head:
  assumes "fp \<noteq> 0" "valid s (fp - 4)" "uint a \<le> uint (mem s (fp - 4) AND - 8)"
  shows "find_fit_loop s (ucast a) fp = Some (s\<lparr>ff_size := a\<rparr>, fp)"
  using assms
  by (subst find_fit_loop.simps) (simp add: GET_SIZE_eq HDRP_def WSIZE_def ucast_le_64 ucast_back)

lemma find_fit_head:
  assumes nb: "\<not> (ff_size s = a \<and> 40 < ff_count s)"
    and fp: "free_listp s \<noteq> 0" "valid s (free_listp s - 4)"
      "uint a \<le> uint (mem s (free_listp s - 4) AND - 8)"
  shows "\<exists>k. find_fit s (ucast a) = Some (s\<lparr>ff_count := k, ff_size := a\<rparr>, free_listp s)"
proof -
  have l: "find_fit_loop (s\<lparr>ff_count := k\<rparr>) (ucast a) (free_listp s) =
      Some (s\<lparr>ff_count := k, ff_size := a\<rparr>, free_listp s)" for k
    using fp by (intro find_fit_loop_head) (simp_all add: valid_def)
  show ?thesis
    using nb by (auto simp: find_fit_def Let_def ucast_back l)
qed

lemma nextblk_step:
  "valid s (b - 4) \<Longrightarrow>
   NEXT_BLKP (s\<lparr>mem := m, free_listp := h\<rparr>) b = Some (b + uint (m (b - 4) AND NOT 7))"
  by (simp add: NEXT_BLKP_def GET_SIZE_eq WSIZE_def)

lemma split_cond:
  assumes "uint (a :: 32 word) \<le> uint (c :: 32 word)"
  shows "(DSIZE * 3 \<le> (ucast c :: 64 word) - ucast a) \<longleftrightarrow> 24 \<le> uint c - uint a"
  by (simp add: DSIZE_def word_le_def uint_sub_64 [OF assms])

lemma rem_size:
  assumes "uint (a :: 32 word) \<le> uint (c :: 32 word)"
  shows "uint (ucast ((ucast c :: 64 word) - ucast a) :: 32 word) = uint c - uint a"
proof -
  have "uint (ucast ((ucast c :: 64 word) - ucast a) :: 32 word) = (uint c - uint a) mod 2 ^ 32"
    by (simp add: unsigned_ucast_eq take_bit_eq_mod uint_sub_64 [OF assms])
  moreover have "0 \<le> uint a" "uint c < 2 ^ 32"
    using uint_lt2p [of c] by simp_all
  then have "(uint c - uint a) mod 2 ^ 32 = uint c - uint a"
    using assms by (intro mod_pos_pos_trivial) linarith+
  ultimately show ?thesis by simp
qed


text \<open>\<open>place\<close> on the head of a consistent free list, for a request that fits.\<close>

lemma place_head:
  assumes R: "region_ok s" and ok: "free_list_ok s (r # rest)"
    and a: "al8 a" "16 \<le> uint a" "uint a \<le> blk_size s r"
  shows "\<exists>s'. place s r (ucast a) = Some s' \<and> mem_brk s' = mem_brk s"
proof -
  from ok have d: "dll s (free_listp s) 0 (r # rest)" and n: "nodes_ok s (r # rest)"
    by (simp_all add: free_list_ok_alt)
  define cs where "cs = mem s (r - 4) AND - 8"
  define T where "T = blk_size s r"
  define A where "A = uint a"
  have T: "T = uint cs"
    by (simp add: T_def cs_def blk_size_def HDRP_def WSIZE_def)
  have rin: "r \<in> set (r # rest)"
    by simp
  note nf = node_facts [OF n rin, folded T_def]
  have AT: "16 \<le> A" "A \<le> T" "A mod 8 = 0" "T mod 8 = 0"
    using a blk_size_al8 [of s r] by (simp_all add: A_def T_def al8_def)
  have lv: "\<forall>y\<in>set (r # rest). lvalid s y"
    using n by (auto simp: nodes_ok_def free_block_lvalid)
  have L: "lseg (mem s) (free_listp s) 0 (r # rest) 0"
    using d by (simp add: dll_lseg)
  have rg: "\<forall>y\<in>set (r # rest). 0 \<le> y \<and> y < 2 ^ 64"
  proof
    fix y assume "y \<in> set (r # rest)"
    with n have "free_block s y" unfolding nodes_ok_def by blast
    with R show "0 \<le> y \<and> y < 2 ^ 64"
      using free_block_range [of s y] by simp
  qed
  have sp: "spaced (r # rest)"
    using n by (rule nodes_spaced)
  have di: "distinct (r # rest)"
    using n by (simp add: nodes_ok_def)
  from efl_remove [OF L rin lv rg sp di] obtain m1 h1 where
    e: "edit_free_list s r 0 = Some (s\<lparr>mem := m1, free_listp := h1\<rparr>)"
    and l1: "lseg m1 h1 0 rest 0"
    by auto
  have h1: "h1 \<noteq> 0 \<longrightarrow> lvalid s h1"
    using l1 lv by (cases rest) auto
  have acs: "al8 cs"
    unfolding cs_def by (rule al8_size [unfolded not7])
  have m4: "(r - 4) mod 4 = 0" "(r + T - 8) mod 4 = 0" "(r + A - 8) mod 4 = 0"
    "(r + A - 4) mod 4 = 0" "(r + A) mod 4 = 0"
    using nf(1) AT(3,4) by presburger+
  have vh: "valid s (r - 4)"
    using nf(3,4) AT(1,2) m4(1) by (simp add: valid_iff)
  have vf: "valid s (r + T - 8)"
    using nf(3,4) AT(1,2) m4(2) by (simp add: valid_iff)
  have g: "GET_SIZE s (HDRP r) = Some cs"
    using vh by (simp add: GET_SIZE_eq HDRP_def WSIZE_def cs_def)
  show ?thesis
  proof (cases "24 \<le> T - A")
    case False
    then have c: "\<not> DSIZE * 3 \<le> (ucast cs :: 64 word) - ucast a"
      using split_cond [of a cs] AT(2) by (simp add: T A_def)
    have p1: "PUT (s\<lparr>mem := m1, free_listp := h1\<rparr>) (HDRP r) (PACK cs 1) =
        Some (s\<lparr>mem := m1(r - 4 := cs OR 1), free_listp := h1\<rparr>)"
      using put_step [OF vh] by (simp add: HDRP_def WSIZE_def PACK_def)
    have f: "FTRP (s\<lparr>mem := m1(r - 4 := cs OR 1), free_listp := h1\<rparr>) r = Some (r + T - 8)"
      using ftrp_step [OF vh, where m = "m1(r - 4 := cs OR 1)" and h = h1] al8_or_1 [OF acs]
      by (simp add: T)
    have p2: "PUT (s\<lparr>mem := m1(r - 4 := cs OR 1), free_listp := h1\<rparr>) (r + T - 8) (PACK cs 1) =
        Some (s\<lparr>mem := m1(r - 4 := cs OR 1, r + T - 8 := cs OR 1), free_listp := h1\<rparr>)"
      using put_step [OF vf] by (simp add: PACK_def)
    have "place s r (ucast a) =
        Some (s\<lparr>mem := m1(r - 4 := cs OR 1, r + T - 8 := cs OR 1), free_listp := h1\<rparr>)"
      unfolding place_def using g e c p1 f p2 by simp
    then show ?thesis by simp
  next
    case True
    then have c: "DSIZE * 3 \<le> (ucast cs :: 64 word) - ucast a"
      using split_cond [of a cs] AT(2) by (simp add: T A_def)
    define rm where "rm = (ucast ((ucast cs :: 64 word) - ucast a) :: 32 word)"
    have rm: "uint rm = T - A"
      unfolding rm_def using rem_size [of a cs] AT(2) by (simp add: T A_def)
    have arm: "al8 rm"
      using AT(3,4) unfolding al8_def rm by presburger
    have va: "valid s (r + A - 8)"
      using nf(3,4) AT(1,2) m4(3) by (simp add: valid_iff)
    have vn: "valid s (r + A - 4)"
      using nf(3,4) AT(1,2) True m4(4) by (simp add: valid_iff)
    have ln: "lvalid s (r + A)"
      using nf(3,4) AT(1,2) True m4(5) by (simp add: lvalid_def)
    define m2 where "m2 = m1(r - 4 := a OR 1)"
    define m3 where "m3 = m2(r + A - 8 := a OR 1)"
    define m4 where "m4 = m3(r + A - 4 := rm)"
    define m5 where "m5 = m4(r + T - 8 := rm)"
    have p1: "PUT (s\<lparr>mem := m1, free_listp := h1\<rparr>) (HDRP r) (ucast (PACK (ucast a :: 64 word) 1)) =
        Some (s\<lparr>mem := m2, free_listp := h1\<rparr>)"
      using put_step [OF vh] by (simp add: HDRP_def WSIZE_def ucast_pack1 m2_def)
    have f: "FTRP (s\<lparr>mem := m2, free_listp := h1\<rparr>) r = Some (r + A - 8)"
      using ftrp_step [OF vh, where m = m2 and h = h1] al8_or_1 [OF a(1)]
      by (simp add: m2_def A_def)
    have p2: "PUT (s\<lparr>mem := m2, free_listp := h1\<rparr>) (r + A - 8) (ucast (PACK (ucast a :: 64 word) 1)) =
        Some (s\<lparr>mem := m3, free_listp := h1\<rparr>)"
      using put_step [OF va] by (simp add: ucast_pack1 m3_def)
    have "m3 (r - 4) = a OR 1"
      using AT(1) by (simp add: m3_def m2_def)
    then have nb: "NEXT_BLKP (s\<lparr>mem := m3, free_listp := h1\<rparr>) r = Some (r + A)"
      using nextblk_step [OF vh, where m = m3 and h = h1] al8_or_1 [OF a(1)]
      by (simp add: A_def)
    have p3: "PUT (s\<lparr>mem := m3, free_listp := h1\<rparr>) (HDRP (r + A))
          (ucast (PACK ((ucast cs :: 64 word) - ucast a) 0)) =
        Some (s\<lparr>mem := m4, free_listp := h1\<rparr>)"
      using put_step [OF vn] by (simp add: HDRP_def WSIZE_def m4_def rm_def)
    have "m4 (r + A - 4) = rm"
      by (simp add: m4_def)
    then have f2: "FTRP (s\<lparr>mem := m4, free_listp := h1\<rparr>) (r + A) = Some (r + T - 8)"
      using ftrp_step [where s = s and b = "r + A" and m = m4 and h = h1] vn al8_and_not_7 [OF arm]
      by (simp add: rm)
    have p4: "PUT (s\<lparr>mem := m4, free_listp := h1\<rparr>) (r + T - 8)
          (ucast (PACK ((ucast cs :: 64 word) - ucast a) 0)) =
        Some (s\<lparr>mem := m5, free_listp := h1\<rparr>)"
      using put_step [OF vf] by (simp add: m5_def rm_def)
    have vh1: "h1 \<noteq> 0 \<longrightarrow> valid s (h1 + 8) \<and> valid s (h1 + 12)"
      using h1 lvalid_valid [of s h1] by simp
    from efl_insert_eq [of "s\<lparr>mem := m5, free_listp := h1\<rparr>" "r + A"] ln vh1
    obtain s' where i: "edit_free_list (s\<lparr>mem := m5, free_listp := h1\<rparr>) (r + A) 1 = Some s'"
      and b: "mem_brk s' = mem_brk s"
      by simp
    have "place s r (ucast a) = Some s'"
      unfolding place_def using g e c p1 f p2 nb p3 f2 p4 i by simp
    with b show ?thesis by simp
  qed
qed

text \<open>A request that the head of the free list can hold is served from the head, and
  the region does not grow, unless the bypass of \<open>find_fit\<close> fires.\<close>

lemma malloc_head:
  assumes R: "region_ok s" and ok: "free_list_ok s (r # rest)" and h: "heap_listp s \<noteq> 0"
    and m0: "0 < m" and mb: "uint m \<le> 2 ^ 32 - 16"
    and fit: "uint (adjust m) \<le> blk_size s r"
    and nb: "\<not> (ff_size s = adjust m \<and> 40 < ff_count s)"
  shows "\<exists>s'. mm_malloc s m = Some (s', r) \<and> mem_brk s' = mem_brk s"
proof -
  define a where "a = adjust m"
  have li: "lazy_init s = Some s"
    using h by (simp add: lazy_init_def)
  have mp: "\<not> m \<le> 0"
    using m0 by (simp add: word_le_def word_less_def)
  from ok have d: "dll s (free_listp s) 0 (r # rest)" and n: "nodes_ok s (r # rest)"
    by (simp_all add: free_list_ok_alt)
  have fl: "free_listp s = r" "r \<noteq> 0"
    using d by (simp_all add: dll_lseg)
  have rin: "r \<in> set (r # rest)"
    by simp
  note nf = node_facts [OF n rin]
  have r4: "(r - 4) mod 4 = 0"
    using nf(1) by presburger
  have vh: "valid s (r - 4)"
    using nf(2,3,4) r4 by (simp add: valid_iff)
  have ft: "uint a \<le> uint (mem s (r - 4) AND - 8)"
    using fit by (simp add: a_def blk_size_def HDRP_def WSIZE_def)
  from find_fit_head [of s a] nb fl vh ft obtain k where
    ff: "find_fit s (ucast a) = Some (s\<lparr>ff_count := k, ff_size := a\<rparr>, r)"
    by (auto simp: a_def)
  define s1 where "s1 = s\<lparr>ff_count := k, ff_size := a\<rparr>"
  have ok1: "free_list_ok s1 (r # rest)"
    using grow_frame [OF ok, of s1] by (simp add: s1_def)
  have R1: "region_ok s1"
    using R by (simp add: region_ok_def s1_def)
  have b1: "uint a \<le> blk_size s1 r"
    using fit by (simp add: a_def s1_def blk_size_def)
  from place_head [OF R1 ok1 adjust_facts [OF mb, folded a_def] b1] obtain s' where
    p: "place s1 r (ucast a) = Some s'" and b: "mem_brk s' = mem_brk s"
    by (auto simp: s1_def)
  have "mm_malloc s m = Some (s', r)"
    unfolding mm_malloc_def Let_def a_def [symmetric]
    using li mp ff [folded s1_def] fl(2) p by simp
  with b show ?thesis by simp
qed


lemma free_marks_ex:
  assumes "blk_pre s xs X" "heap_listp s \<noteq> 0"
  shows "\<exists>m2. mm_free s X = map_option fst (coalesce (s\<lparr>mem := m2\<rparr>) X) \<and>
           coalesce_pre (s\<lparr>mem := m2\<rparr>) xs X \<and>
           merged_start (s\<lparr>mem := m2\<rparr>) X = merged_start s X \<and>
           blk_size (s\<lparr>mem := m2\<rparr>) X = blk_size s X"
  using free_marks [OF assms] by blast

lemma free_then_malloc:
  assumes p: "blk_pre s xs X" and b24: "24 \<le> blk_size s X" and h: "heap_listp s \<noteq> 0"
    and m0: "0 < m" and mb: "uint m \<le> 2 ^ 32 - 16"
    and fit: "uint (adjust m) \<le> blk_size s X"
    and nb: "\<not> (ff_size s = adjust m \<and> 40 < ff_count s)"
  shows "\<exists>s2 s3. mm_free s X = Some s2 \<and> mem_brk s2 = mem_brk s \<and>
           mm_malloc s2 m = Some (s3, merged_start s X) \<and> mem_brk s3 = mem_brk s"
proof -
  from free_marks_ex [OF p h] obtain m2 where
    f: "mm_free s X = map_option fst (coalesce (s\<lparr>mem := m2\<rparr>) X)"
    and c: "coalesce_pre (s\<lparr>mem := m2\<rparr>) xs X"
    and ms: "merged_start (s\<lparr>mem := m2\<rparr>) X = merged_start s X"
    and bs: "blk_size (s\<lparr>mem := m2\<rparr>) X = blk_size s X"
    by blast
  define r where "r = merged_start s X"
  define T where "T = merged_size (s\<lparr>mem := m2\<rparr>) X"
  define rest where "rest = survivors (s\<lparr>mem := m2\<rparr>) X xs"
  from coalesce_main [OF c, unfolded ms, folded r_def T_def rest_def] obtain m' where
    co: "coalesce (s\<lparr>mem := m2\<rparr>) X = Some (s\<lparr>mem := m2, mem := m', free_listp := r\<rparr>, r)"
    and sz: "blk_size (s\<lparr>mem := m2, mem := m', free_listp := r\<rparr>) r = T"
    and fl: "24 \<le> T \<longrightarrow> free_list_ok (s\<lparr>mem := m2, mem := m', free_listp := r\<rparr>) (r # rest)"
    and le: "r \<le> X" "X + blk_size (s\<lparr>mem := m2\<rparr>) X \<le> r + T"
    by blast
  define s2 where "s2 = s\<lparr>mem := m2, mem := m', free_listp := r\<rparr>"
  have T: "blk_size s X \<le> T"
    using le by (simp add: bs)
  have ok: "free_list_ok s2 (r # rest)"
    using fl T b24 by (simp add: s2_def)
  have fr: "mm_free s X = Some s2"
    by (simp add: f co s2_def)
  have R: "region_ok s2"
    using pre_facts(1) [OF p] by (simp add: region_ok_def s2_def)
  have h2: "heap_listp s2 \<noteq> 0"
    using h by (simp add: s2_def)
  have fit2: "uint (adjust m) \<le> blk_size s2 r"
    using fit T sz by (simp add: s2_def)
  have nb2: "\<not> (ff_size s2 = adjust m \<and> 40 < ff_count s2)"
    using nb by (simp add: s2_def)
  from malloc_head [OF R ok h2 m0 mb fit2 nb2] obtain s3 where
    "mm_malloc s2 m = Some (s3, r)" "mem_brk s3 = mem_brk s2"
    by blast
  with fr show ?thesis
    by (simp add: s2_def r_def)
qed


text \<open>
  Where the round trip holds. Let \<open>X\<close> be a block of at least 24 bytes in an
  initialised heap whose free list \<open>xs\<close> is consistent (\<open>blk_pre\<close>), large enough for
  a request of \<open>n\<close> bytes, and let \<open>0 < m \<le> n \<le> 2^32 - 16\<close>. If \<open>find_fit\<close> does not
  skip the search for \<open>m\<close>, then \<open>mm_free X\<close> followed by \<open>mm_malloc m\<close> returns, the
  region is not grown by either call, and the reference returned is the start of the
  merged free block: \<open>X\<close> itself unless the block before \<open>X\<close> is free, and the start
  of that block otherwise.
\<close>

lemma release_then_allocate:
  assumes "blk_pre s xs X" and "24 \<le> blk_size s X" and "heap_listp s \<noteq> 0"
    and "0 < m" and "m \<le> n" and "uint n \<le> 2 ^ 32 - 16"
    and "uint (adjust n) \<le> blk_size s X"
    and "\<not> (ff_size s = adjust m \<and> 40 < ff_count s)"
  shows "\<exists>s2 s3. mm_free s X = Some s2 \<and> mem_brk s2 = mem_brk s \<and>
           mm_malloc s2 m = Some (s3, if prev_free s X then prev_blk s X else X) \<and>
           mem_brk s3 = mem_brk s"
proof -
  from assms(5,6) have mb: "uint m \<le> 2 ^ 32 - 16"
    by (simp add: word_le_def)
  have fit: "uint (adjust m) \<le> blk_size s X"
    using adjust_mono [OF assms(5,6)] assms(7) by simp
  from free_then_malloc [OF assms(1,2,3,4) mb fit assms(8)] show ?thesis
    by (simp add: merged_start_def)
qed

text \<open>This covers Scenario A: blocks of 100 and 200 bytes are allocated at
  4112 and 4224 after \<open>mm_init\<close>; the first is released; the request of 50 bytes
  returns 4112 again, and the region ends at 69648 throughout.\<close>

lemma release_then_allocate_scenario_a:
  "blk_pre scenario_a [4432] 4112 \<and> blk_size scenario_a 4112 = 112 \<and>
   heap_listp scenario_a \<noteq> 0 \<and> uint (adjust 100) = 112 \<and>
   \<not> prev_free scenario_a 4112 \<and> mem_brk scenario_a = 69648 \<and>
   (\<exists>s2 s3. mm_free scenario_a 4112 = Some s2 \<and> mem_brk s2 = 69648 \<and>
            mm_malloc s2 50 = Some (s3, 4112) \<and> mem_brk s3 = 69648)"
proof -
  have p: "blk_pre scenario_a [4432] 4112"
    by code_simp
  have e: "blk_size scenario_a 4112 = 112" "heap_listp scenario_a \<noteq> 0"
    "uint (adjust 100) = 112" "\<not> prev_free scenario_a 4112" "mem_brk scenario_a = 69648"
    "\<not> (ff_size scenario_a = adjust 50 \<and> 40 < ff_count scenario_a)"
    by code_simp+
  have b: "24 \<le> blk_size scenario_a 4112" "uint (adjust 100) \<le> blk_size scenario_a 4112"
    by (simp_all add: e)
  have w: "(0 :: size_t) < 50" "(50 :: size_t) \<le> 100" "uint (100 :: size_t) \<le> 2 ^ 32 - 16"
    by simp_all
  from release_then_allocate [OF p b(1) e(2) w b(2) e(6)] show ?thesis
    using p e by simp
qed

end
